theory Spec2Isabelle
  imports Main "HOL-Library.Sublist"
begin

section \<open>Syntax trees, edits and errors\<close>

text \<open>
  The pass \<^verbatim>\<open>transformDestructuredProps\<close> of
  \<^verbatim>\<open>packages/compiler-sfc/src/compileScriptPropsDestructure.ts\<close> walks a Babel
  syntax tree. The code reads a node through its string tag \<^verbatim>\<open>type\<close> and a handful
  of properties, so a node is modelled generically:
  \<^item> \<open>ntype\<close> is the tag \<^verbatim>\<open>node.type\<close>;
  \<^item> \<open>nid\<close> stands for the identity of the node object (the code compares nodes with
    \<^verbatim>\<open>===\<close> and keeps them in a \<^verbatim>\<open>WeakSet\<close>);
  \<^item> \<open>nname\<close>, \<open>nstart\<close>, \<open>nend\<close> are \<^verbatim>\<open>name\<close>, \<^verbatim>\<open>start\<close>, \<^verbatim>\<open>end\<close>;
  \<^item> \<open>nflags\<close> lists the boolean properties that are set (\<^verbatim>\<open>declare\<close>,
    \<^verbatim>\<open>shorthand\<close>, \<^verbatim>\<open>inPattern\<close>, \<^verbatim>\<open>computed\<close>);
  \<^item> \<open>nkids\<close> lists the child nodes in the enumeration order of the node's keys, each
    with the key it is stored under; an array-valued key contributes one entry per
    element that is a node, in order (a \<^verbatim>\<open>null\<close> element contributes none).
\<close>

datatype node =
  Node (ntype: string) (nid: nat) (nname: string) (nstart: int) (nend: int)
    (nflags: "string list") (nkids: "(string \<times> node) list")

text \<open>\<^verbatim>\<open>node.key\<close> for a node-valued key (\<open>None\<close> is \<^verbatim>\<open>undefined\<close>), and for an array-valued key.\<close>

definition get_kid :: "node \<Rightarrow> string \<Rightarrow> node option" where
  "get_kid n k = map_of (nkids n) k"

definition get_kids :: "node \<Rightarrow> string \<Rightarrow> node list" where
  "get_kids n k = map snd (filter (\<lambda>kc. fst kc = k) (nkids n))"

definition has_flag :: "node \<Rightarrow> string \<Rightarrow> bool" where
  "has_flag n f = (f \<in> set (nflags n))"

text \<open>Object identity \<^verbatim>\<open>a === b\<close>, where \<open>a\<close> may be \<^verbatim>\<open>undefined\<close>.\<close>

definition same_node :: "node option \<Rightarrow> node \<Rightarrow> bool" where
  "same_node a b = (case a of None \<Rightarrow> False | Some x \<Rightarrow> nid x = nid b)"

text \<open>
  The calls made on the \<^verbatim>\<open>MagicString\<close> \<^verbatim>\<open>s\<close>: \<^verbatim>\<open>s.appendLeft(index, content)\<close>
  and \<^verbatim>\<open>s.overwrite(start, end, content)\<close>. The buffer is the caller's object and is
  changed in place; the model keeps the calls made on it so far, oldest first.
\<close>

datatype edit = AppendLeft int string | Overwrite int int string

text \<open>
  The diagnostic sink \<^verbatim>\<open>error(msg, node)\<close> never returns: it throws. The three messages
  of the file are the first three constructors: \<^verbatim>\<open>Cannot assign to destructured props as
  they are readonly\<close> with the identifier, \<^verbatim>\<open>... is a destructured prop and should not be
  passed directly to method()\<close> with the argument and the method, and \<^verbatim>\<open>registerBinding
  called without active scope\<close> with the identifier. \<open>RuntimeTypeError\<close> is the JavaScript
  \<^verbatim>\<open>TypeError\<close> of reading a property of \<^verbatim>\<open>undefined\<close>: the model throws it wherever
  the code reads \<^verbatim>\<open>.type\<close> or iterates over a child or a parent that the tree does not
  have.
\<close>

datatype error =
  ReadonlyViolation node
  | ReactivityTrackingMisuse node string
  | InternalInvariantViolation node
  | RuntimeTypeError

text \<open>\<^verbatim>\<open>type Scope = Record<string, boolean>\<close>: \<open>True\<close> a prop binding, \<open>False\<close> a local one.\<close>

type_synonym scope = "string \<rightharpoonup> bool"

text \<open>
  The write \<^verbatim>\<open>scope[name] = b\<close> on a scope, a plain object: for the name \<^verbatim>\<open>__proto__\<close>
  the assignment of a boolean goes to the prototype setter and stores nothing, so
  \<^verbatim>\<open>hasOwn(scope, '__proto__')\<close> stays false.
\<close>

definition scopeSet :: "scope \<Rightarrow> string \<Rightarrow> bool \<Rightarrow> scope" where
  "scopeSet sc name b = (if name = ''__proto__'' then sc else sc(name \<mapsto> b))"

text \<open>
  The mutable variables of the closure. \<^verbatim>\<open>scopeStack\<close> is a JavaScript array: \<^verbatim>\<open>push\<close>
  appends at the end, \<^verbatim>\<open>pop\<close> removes the last element. \<^verbatim>\<open>currentScope\<close> is not a
  field: each of its three assignments (\<^verbatim>\<open>= rootScope\<close> beside
  \<^verbatim>\<open>scopeStack = [rootScope]\<close>, \<^verbatim>\<open>scopeStack.push((currentScope = {}))\<close>, and
  \<^verbatim>\<open>currentScope = scopeStack[scopeStack.length - 1] || null\<close> after a pop) makes it
  the very object that is last in \<^verbatim>\<open>scopeStack\<close>, or \<^verbatim>\<open>null\<close> when the stack is empty, so
  a write through \<^verbatim>\<open>currentScope\<close> is a write to the last element of the stack.
  \<open>edits\<close> is the state of the caller's \<^verbatim>\<open>MagicString\<close>.
\<close>

record state =
  scopeStack :: "scope list"
  excludedIds :: "nat set"
  parentStack :: "node list"
  edits :: "edit list"

text \<open>
  A thrown error leaves the closure, whose variables are lost, but not the caller's
  buffer: the error value carries the edits made on it before the throw.
\<close>

type_synonym 'a result = "(error \<times> edit list) + 'a"

definition throw :: "error \<Rightarrow> state \<Rightarrow> 'a result" where
  "throw e st = Inl (e, edits st)"

text \<open>
  The tree utilities imported from \<^verbatim>\<open>@vue/compiler-core\<close> and \<^verbatim>\<open>@vue/shared\<close> are not
  part of the file; the pass is modelled over any implementation of them.
  \<open>walkFunctionParams\<close> gives the identifiers it hands to its callback, in order;
  \<open>genPropsAccessExp\<close> takes \<open>None\<close> for \<^verbatim>\<open>undefined\<close>.
\<close>

record helpers =
  isFunctionType :: "node \<Rightarrow> bool"
  isCallOf :: "node \<Rightarrow> string \<Rightarrow> bool"
  unwrapTSNode :: "node \<Rightarrow> node"
  extractIdentifiers :: "node \<Rightarrow> node list"
  walkFunctionParams :: "node \<Rightarrow> node list"
  isReferencedIdentifier :: "node \<Rightarrow> node option \<Rightarrow> node list \<Rightarrow> bool"
  isInDestructureAssignment :: "node \<Rightarrow> node list \<Rightarrow> bool"
  isStaticProperty :: "node \<Rightarrow> bool"
  genPropsAccessExp :: "string option \<Rightarrow> string"

text \<open>The parameters of the pass that stay fixed during the walk.\<close>

record env =
  hs :: helpers
  offset :: int
  vueImportAliases :: "string \<rightharpoonup> string"
  propsLocalToPublicMap :: "string \<rightharpoonup> string"

section \<open>Registering bindings\<close>

definition registerLocalBinding :: "node \<Rightarrow> state \<Rightarrow> state result" where
  "registerLocalBinding ident st =
    (let st1 = st\<lparr>excludedIds := insert (nid ident) (excludedIds st)\<rparr> in
     case scopeStack st1 of
       [] \<Rightarrow> throw (InternalInvariantViolation ident) st1
     | _ # _ \<Rightarrow>
         Inr (st1\<lparr>scopeStack :=
           butlast (scopeStack st1) @ [scopeSet (last (scopeStack st1)) (nname ident) False]\<rparr>))"

fun registerAll :: "node list \<Rightarrow> state \<Rightarrow> state result" where
  "registerAll [] st = Inr st"
| "registerAll (ident # ids) st =
    (case registerLocalBinding ident st of
       Inl e \<Rightarrow> Inl e
     | Inr st1 \<Rightarrow> registerAll ids st1)"

definition excludeAll :: "node list \<Rightarrow> state \<Rightarrow> state" where
  "excludeAll ids st = st\<lparr>excludedIds := excludedIds st \<union> nid ` set ids\<rparr>"

text \<open>The loop over \<^verbatim>\<open>stmt.declarations\<close> of \<^verbatim>\<open>walkVariableDeclaration\<close>.\<close>

fun walkDeclarators :: "env \<Rightarrow> bool \<Rightarrow> node list \<Rightarrow> state \<Rightarrow> state result" where
  "walkDeclarators env isRoot [] st = Inr st"
| "walkDeclarators env isRoot (decl # decls) st =
    (let isDefineProps =
       (isRoot \<and>
        (case get_kid decl ''init'' of
           None \<Rightarrow> False
         | Some init \<Rightarrow> isCallOf (hs env) (unwrapTSNode (hs env) init) ''defineProps''))
     in
     case get_kid decl ''id'' of
       None \<Rightarrow> throw RuntimeTypeError st
     | Some pat \<Rightarrow>
         (case (if isDefineProps then Inr (excludeAll (extractIdentifiers (hs env) pat) st)
                else registerAll (extractIdentifiers (hs env) pat) st) of
            Inl e \<Rightarrow> Inl e
          | Inr st1 \<Rightarrow> walkDeclarators env isRoot decls st1))"

definition walkVariableDeclaration :: "env \<Rightarrow> node \<Rightarrow> bool \<Rightarrow> state \<Rightarrow> state result" where
  "walkVariableDeclaration env stmt isRoot st =
    (if has_flag stmt ''declare'' then Inr st
     else walkDeclarators env isRoot (get_kids stmt ''declarations'') st)"

text \<open>One round of the loop of \<^verbatim>\<open>walkScope\<close>, and the loop.\<close>

definition walkStatement :: "env \<Rightarrow> bool \<Rightarrow> node \<Rightarrow> state \<Rightarrow> state result" where
  "walkStatement env isRoot stmt st =
    (if ntype stmt = ''VariableDeclaration'' then walkVariableDeclaration env stmt isRoot st
     else if ntype stmt = ''FunctionDeclaration'' \<or> ntype stmt = ''ClassDeclaration'' then
       (if has_flag stmt ''declare'' then Inr st
        else case get_kid stmt ''id'' of
               None \<Rightarrow> Inr st
             | Some ident \<Rightarrow> registerLocalBinding ident st)
     else if ntype stmt = ''ForOfStatement'' \<or> ntype stmt = ''ForInStatement'' then
       (case get_kid stmt ''left'' of
          None \<Rightarrow> throw RuntimeTypeError st
        | Some left \<Rightarrow>
            if ntype left = ''VariableDeclaration''
            then walkVariableDeclaration env left False st
            else Inr st)
     else if ntype stmt = ''ExportNamedDeclaration'' then
       (case get_kid stmt ''declaration'' of
          None \<Rightarrow> Inr st
        | Some d \<Rightarrow>
            if ntype d = ''VariableDeclaration''
            then walkVariableDeclaration env d isRoot st
            else Inr st)
     else if ntype stmt = ''LabeledStatement'' then
       (case get_kid stmt ''body'' of
          None \<Rightarrow> throw RuntimeTypeError st
        | Some b \<Rightarrow>
            if ntype b = ''VariableDeclaration''
            then walkVariableDeclaration env b isRoot st
            else Inr st)
     else Inr st)"

fun walkStatements :: "env \<Rightarrow> bool \<Rightarrow> node list \<Rightarrow> state \<Rightarrow> state result" where
  "walkStatements env isRoot [] st = Inr st"
| "walkStatements env isRoot (stmt # stmts) st =
    (case walkStatement env isRoot stmt st of
       Inl e \<Rightarrow> Inl e
     | Inr st1 \<Rightarrow> walkStatements env isRoot stmts st1)"

definition walkScope :: "env \<Rightarrow> node \<Rightarrow> bool \<Rightarrow> state \<Rightarrow> state result" where
  "walkScope env n isRoot st = walkStatements env isRoot (get_kids n ''body'') st"

section \<open>Rewriting an identifier\<close>

text \<open>The text \<^verbatim>\<open>genPropsAccessExp(propsLocalToPublicMap[id.name])\<close>.\<close>

definition accessExp :: "env \<Rightarrow> node \<Rightarrow> string" where
  "accessExp env ident = genPropsAccessExp (hs env) (propsLocalToPublicMap env (nname ident))"

text \<open>
  The test \<^verbatim>\<open>(parent.type === 'AssignmentExpression' && id === parent.left) ||
  parent.type === 'UpdateExpression'\<close> of \<^verbatim>\<open>rewriteId\<close>.
\<close>

definition isAssignTarget :: "node \<Rightarrow> node \<Rightarrow> bool" where
  "isAssignTarget parent ident =
    ((ntype parent = ''AssignmentExpression'' \<and> same_node (get_kid parent ''left'') ident)
     \<or> ntype parent = ''UpdateExpression'')"

definition rewriteId ::
  "env \<Rightarrow> scope \<Rightarrow> node \<Rightarrow> node option \<Rightarrow> node list \<Rightarrow> state \<Rightarrow> (bool \<times> state) result" where
  "rewriteId env scope ident parent pstack st =
    (case scope (nname ident) of
       None \<Rightarrow> Inr (False, st)
     | Some binding \<Rightarrow>
         if binding then
           (case parent of
              None \<Rightarrow> throw RuntimeTypeError st
            | Some p \<Rightarrow>
                if isAssignTarget p ident then throw (ReadonlyViolation ident) st
                else if isStaticProperty (hs env) p \<and> has_flag p ''shorthand'' then
                  (if has_flag p ''inPattern'' \<and> \<not> isInDestructureAssignment (hs env) p pstack
                   then Inr (True, st)
                   else Inr (True, st\<lparr>edits := edits st @
                          [AppendLeft (nend ident + offset env) ('': '' @ accessExp env ident)]\<rparr>))
                else Inr (True, st\<lparr>edits := edits st @
                       [Overwrite (nstart ident + offset env) (nend ident + offset env)
                          (accessExp env ident)]\<rparr>))
         else Inr (True, st))"

text \<open>
  The loop \<^verbatim>\<open>let i = scopeStack.length; while (i--) { if (rewriteId(scopeStack[i], ...)) return }\<close>
  over the scopes from the last one to the first; its argument is the stack reversed.
\<close>

fun walkUpScopes ::
  "env \<Rightarrow> scope list \<Rightarrow> node \<Rightarrow> node option \<Rightarrow> node list \<Rightarrow> state \<Rightarrow> state result" where
  "walkUpScopes env [] ident parent pstack st = Inr st"
| "walkUpScopes env (sc # scs) ident parent pstack st =
    (case rewriteId env sc ident parent pstack st of
       Inl e \<Rightarrow> Inl e
     | Inr (found, st1) \<Rightarrow>
         if found then Inr st1 else walkUpScopes env scs ident parent pstack st1)"

section \<open>The misuse check\<close>

text \<open>
  \<^verbatim>\<open>checkUsage(node, method, alias = method)\<close>: the default applies when the alias table
  has no entry (the argument is \<^verbatim>\<open>undefined\<close>). \<^verbatim>\<open>node.arguments[0]\<close> of a call without
  arguments is \<^verbatim>\<open>undefined\<close>, and reading its \<^verbatim>\<open>type\<close> throws.
\<close>

definition aliasOr :: "string \<Rightarrow> string option \<Rightarrow> string" where
  "aliasOr method alias = (case alias of None \<Rightarrow> method | Some a \<Rightarrow> a)"

definition checkUsage :: "env \<Rightarrow> node \<Rightarrow> string \<Rightarrow> string option \<Rightarrow> state \<Rightarrow> state result" where
  "checkUsage env n method alias st =
    (if isCallOf (hs env) n (aliasOr method alias) then
       (case get_kid n ''arguments'' of
          None \<Rightarrow> throw RuntimeTypeError st
        | Some a \<Rightarrow>
            (let arg = unwrapTSNode (hs env) a in
             if ntype arg = ''Identifier''
             then throw (ReactivityTrackingMisuse arg method) st
             else Inr st))
     else Inr st)"

section \<open>The walk\<close>

text \<open>
  The test of \<^verbatim>\<open>enter\<close> for a child of a type node: \<^verbatim>\<open>parent.type.startsWith('TS')\<close> and
  \<^verbatim>\<open>parent.type\<close> is none of \<^verbatim>\<open>TSAsExpression\<close>, \<^verbatim>\<open>TSNonNullExpression\<close>,
  \<^verbatim>\<open>TSTypeAssertion\<close>.
\<close>

definition isPureTypeParent :: "node \<Rightarrow> bool" where
  "isPureTypeParent parent =
    (take 2 (ntype parent) = ''TS'' \<and> ntype parent \<noteq> ''TSAsExpression''
     \<and> ntype parent \<noteq> ''TSNonNullExpression'' \<and> ntype parent \<noteq> ''TSTypeAssertion'')"

text \<open>\<^verbatim>\<open>scopeStack.push((currentScope = {}))\<close> and \<^verbatim>\<open>scopeStack.pop()\<close>.\<close>

definition pushScope :: "state \<Rightarrow> state" where
  "pushScope st = st\<lparr>scopeStack := scopeStack st @ [Map.empty]\<rparr>"

definition popScope :: "state \<Rightarrow> state" where
  "popScope st = st\<lparr>scopeStack := butlast (scopeStack st)\<rparr>"

text \<open>What the \<^verbatim>\<open>enter\<close> callback tells the walker: go on into the children, or \<^verbatim>\<open>this.skip()\<close>.\<close>

datatype walk_ctl = Descend | Skip

definition pushParent :: "node option \<Rightarrow> state \<Rightarrow> state" where
  "pushParent parent st =
    (case parent of None \<Rightarrow> st | Some p \<Rightarrow> st\<lparr>parentStack := parentStack st @ [p]\<rparr>)"

definition popParent :: "node option \<Rightarrow> state \<Rightarrow> state" where
  "popParent parent st =
    (case parent of None \<Rightarrow> st | Some p \<Rightarrow> st\<lparr>parentStack := butlast (parentStack st)\<rparr>)"

definition descend :: "state result \<Rightarrow> (walk_ctl \<times> state) result" where
  "descend r = (case r of Inl e \<Rightarrow> Inl e | Inr st \<Rightarrow> Inr (Descend, st))"

definition enterNode :: "env \<Rightarrow> node \<Rightarrow> node option \<Rightarrow> state \<Rightarrow> (walk_ctl \<times> state) result" where
  "enterNode env n parent st =
    (if isFunctionType (hs env) n then
       (case registerAll (walkFunctionParams (hs env) n) (pushScope st) of
          Inl e \<Rightarrow> Inl e
        | Inr st3 \<Rightarrow>
            (case get_kid n ''body'' of
               None \<Rightarrow> throw RuntimeTypeError st3
             | Some body \<Rightarrow>
                 if ntype body = ''BlockStatement''
                 then descend (walkScope env body False st3)
                 else Inr (Descend, st3)))
     else if ntype n = ''CatchClause'' then
       (case (case get_kid n ''param'' of
                None \<Rightarrow> Inr (pushScope st)
              | Some param \<Rightarrow>
                  if ntype param = ''Identifier''
                  then registerLocalBinding param (pushScope st)
                  else Inr (pushScope st)) of
          Inl e \<Rightarrow> Inl e
        | Inr st3 \<Rightarrow>
            (case get_kid n ''body'' of
               None \<Rightarrow> throw RuntimeTypeError st3
             | Some body \<Rightarrow> descend (walkScope env body False st3)))
     else if ntype n = ''BlockStatement'' then
       (case parent of
          None \<Rightarrow> throw RuntimeTypeError st
        | Some p \<Rightarrow>
            if isFunctionType (hs env) p then Inr (Descend, st)
            else descend (walkScope env n False (pushScope st)))
     else if ntype n = ''Identifier'' then
       (if isReferencedIdentifier (hs env) n parent (parentStack st)
           \<and> nid n \<notin> excludedIds st
        then descend (walkUpScopes env (rev (scopeStack st)) n parent (parentStack st) st)
        else Inr (Descend, st))
     else Inr (Descend, st))"

text \<open>
  The \<^verbatim>\<open>enter\<close> callback: the parent is pushed, a child of a type node is skipped, the
  two misuse checks run, and then the scope and identifier cases (\<open>enterNode\<close>).
\<close>

definition enter :: "env \<Rightarrow> node \<Rightarrow> node option \<Rightarrow> state \<Rightarrow> (walk_ctl \<times> state) result" where
  "enter env n parent st0 =
    (let st = pushParent parent st0 in
     if (case parent of None \<Rightarrow> False | Some p \<Rightarrow> isPureTypeParent p) then Inr (Skip, st)
     else
       (case checkUsage env n ''watch'' (vueImportAliases env ''watch'') st of
          Inl e \<Rightarrow> Inl e
        | Inr st1 \<Rightarrow>
            (case checkUsage env n ''toRef'' (vueImportAliases env ''toRef'') st1 of
               Inl e \<Rightarrow> Inl e
             | Inr st2 \<Rightarrow> enterNode env n parent st2)))"

definition leave :: "env \<Rightarrow> node \<Rightarrow> node option \<Rightarrow> state \<Rightarrow> state result" where
  "leave env n parent st0 =
    (let st = popParent parent st0 in
     if ntype n = ''BlockStatement'' then
       (case parent of
          None \<Rightarrow> throw RuntimeTypeError st
        | Some p \<Rightarrow>
            if isFunctionType (hs env) p
            then (if isFunctionType (hs env) n then Inr (popScope st) else Inr st)
            else Inr (popScope st))
     else if isFunctionType (hs env) n then Inr (popScope st)
     else Inr st)"

text \<open>
  \<^verbatim>\<open>walk(ast, { enter, leave })\<close> of the library estree-walker: \<^verbatim>\<open>enter\<close> is called on a
  node; when it called \<^verbatim>\<open>this.skip()\<close> the walker returns at once, without the children
  and without \<^verbatim>\<open>leave\<close>; otherwise the children are visited in the order of the node's
  keys and \<^verbatim>\<open>leave\<close> is called. A thrown error ends the walk.
\<close>

lemma nkids_size: "Suc (2 * size_list (size_prod (\<lambda>_. 0) size) (nkids n)) < 2 * size n"
  by (cases n) simp

function visit :: "env \<Rightarrow> node \<Rightarrow> node option \<Rightarrow> state \<Rightarrow> state result"
  and visitKids :: "env \<Rightarrow> node \<Rightarrow> (string \<times> node) list \<Rightarrow> state \<Rightarrow> state result" where
  "visit env n parent st =
    (case enter env n parent st of
       Inl e \<Rightarrow> Inl e
     | Inr (ctl, st1) \<Rightarrow>
         (case ctl of
            Skip \<Rightarrow> Inr st1
          | Descend \<Rightarrow>
              (case visitKids env n (nkids n) st1 of
                 Inl e \<Rightarrow> Inl e
               | Inr st2 \<Rightarrow> leave env n parent st2)))"
| "visitKids env p [] st = Inr st"
| "visitKids env p (kc # kcs) st =
    (case visit env (snd kc) (Some p) st of
       Inl e \<Rightarrow> Inl e
     | Inr st1 \<Rightarrow> visitKids env p kcs st1)"
  by pat_completeness auto
termination
  by (relation "measure (\<lambda>x. case x of
        Inl (env, n, parent, st) \<Rightarrow> 2 * size n
      | Inr (env, p, kcs, st) \<Rightarrow> 2 * size_list (size_prod (\<lambda>_. 0) size) kcs + 1)")
     (auto simp: nkids_size)

text \<open>
  The loop \<^verbatim>\<open>for (const key in knownProps)\<close>; \<open>knownProps\<close> is the list of the table's
  entries (public key, local name) in enumeration order. \<^verbatim>\<open>propsLocalToPublicMap\<close> is
  made by \<^verbatim>\<open>Object.create(null)\<close>, so every name is stored in it.
\<close>

fun seedProps :: "(string \<times> string) list \<Rightarrow> scope \<times> (string \<rightharpoonup> string)
    \<Rightarrow> scope \<times> (string \<rightharpoonup> string)" where
  "seedProps [] acc = acc"
| "seedProps ((key, local) # kps) (rootScope, l2p) =
    seedProps kps (scopeSet rootScope local True, l2p(local \<mapsto> key))"

text \<open>
  The pass. \<open>s\<close> is the state of the caller's buffer at the call; the result is its
  state at the return, or the thrown error with its state at the throw.
\<close>

definition transformDestructuredProps ::
  "helpers \<Rightarrow> node \<Rightarrow> edit list \<Rightarrow> int \<Rightarrow> (string \<times> string) list \<Rightarrow> (string \<rightharpoonup> string)
    \<Rightarrow> (edit list) result" where
  "transformDestructuredProps h ast s off knownProps aliases =
    (let seeded = seedProps knownProps (Map.empty, Map.empty);
         env = \<lparr>hs = h, offset = off, vueImportAliases = aliases,
                propsLocalToPublicMap = snd seeded\<rparr>;
         st0 = \<lparr>scopeStack = [fst seeded], excludedIds = {}, parentStack = [], edits = s\<rparr>
     in case walkScope env ast True st0 of
          Inl e \<Rightarrow> Inl e
        | Inr st1 \<Rightarrow>
            (case visit env ast None st1 of
               Inl e \<Rightarrow> Inl e
             | Inr st2 \<Rightarrow> Inr (edits st2)))"

text \<open>The parameters and the state with which the pass starts, as it builds them.\<close>

definition passEnv ::
  "helpers \<Rightarrow> int \<Rightarrow> (string \<times> string) list \<Rightarrow> (string \<rightharpoonup> string) \<Rightarrow> env" where
  "passEnv h off knownProps aliases =
    \<lparr>hs = h, offset = off, vueImportAliases = aliases,
     propsLocalToPublicMap = snd (seedProps knownProps (Map.empty, Map.empty))\<rparr>"

definition passStart :: "edit list \<Rightarrow> (string \<times> string) list \<Rightarrow> state" where
  "passStart s knownProps =
    \<lparr>scopeStack = [fst (seedProps knownProps (Map.empty, Map.empty))], excludedIds = {},
     parentStack = [], edits = s\<rparr>"

section \<open>The calls of the walker\<close>

text \<open>
  The calls of \<^verbatim>\<open>enter\<close> that the walker makes: \<open>reaches env r rp st0 n parent st\<close> says
  that the walk started on \<open>r\<close> (below \<open>rp\<close>) in the state \<open>st0\<close> calls \<^verbatim>\<open>enter\<close> on \<open>n\<close>
  with \<open>parent\<close> in the state \<open>st\<close>. It calls it on \<open>r\<close> itself; and when that call has
  returned without \<^verbatim>\<open>this.skip()\<close> and the children of \<open>r\<close> before a child \<open>c\<close> have been
  visited without a throw, it makes the calls of the walk started on \<open>c\<close>.
\<close>

inductive reaches ::
  "env \<Rightarrow> node \<Rightarrow> node option \<Rightarrow> state \<Rightarrow> node \<Rightarrow> node option \<Rightarrow> state \<Rightarrow> bool" where
  here: "reaches env r rp st r rp st"
| below: "enter env r rp st = Inr (Descend, st1) \<Longrightarrow> nkids r = xs @ kc # ys \<Longrightarrow>
    visitKids env r xs st1 = Inr st2 \<Longrightarrow> reaches env (snd kc) (Some r) st2 n parent st' \<Longrightarrow>
    reaches env r rp st n parent st'"

text \<open>
  A callback throws at a node: \<^verbatim>\<open>enter\<close> throws, or \<^verbatim>\<open>enter\<close> and the visits of all the
  children return and \<^verbatim>\<open>leave\<close> throws. \<open>err\<close> is the error with the state of the buffer at
  the throw.
\<close>

definition throwsAt :: "env \<Rightarrow> node \<Rightarrow> node option \<Rightarrow> state \<Rightarrow> error \<times> edit list \<Rightarrow> bool" where
  "throwsAt env n parent st err =
    (case enter env n parent st of
       Inl e \<Rightarrow> e = err
     | Inr (ctl, st1) \<Rightarrow>
         (case ctl of
            Skip \<Rightarrow> False
          | Descend \<Rightarrow>
              (case visitKids env n (nkids n) st1 of
                 Inl e \<Rightarrow> False
               | Inr st2 \<Rightarrow> leave env n parent st2 = Inl err)))"

section \<open>The tree utilities, modelled\<close>

text \<open>
  The helpers that the pass imports from \<^verbatim>\<open>@vue/compiler-core\<close> and \<^verbatim>\<open>@vue/shared\<close>
  are not among the sources. The theorems about the pass hold for every implementation of
  them; the definitions of this section, each modelled from the specification, serve to
  run the pass on concrete trees.
\<close>

lemma get_kid_size: "get_kid n k = Some c \<Longrightarrow> size c < size n"
proof -
  assume "get_kid n k = Some c"
  then have "(k, c) \<in> set (nkids n)"
    by (simp add: get_kid_def map_of_SomeD)
  then have "size_prod (\<lambda>_. 0) size (k, c) \<le> size_list (size_prod (\<lambda>_. 0) size) (nkids n)"
    by (simp add: size_list_estimation')
  then show ?thesis
    using nkids_size [of n] by simp
qed

lemma get_kids_size: "c \<in> set (get_kids n k) \<Longrightarrow> size c < size n"
proof -
  assume "c \<in> set (get_kids n k)"
  then have "(k, c) \<in> set (nkids n)"
    by (auto simp: get_kids_def)
  then have "size_prod (\<lambda>_. 0) size (k, c) \<le> size_list (size_prod (\<lambda>_. 0) size) (nkids n)"
    by (simp add: size_list_estimation')
  then show ?thesis
    using nkids_size [of n] by simp
qed

text \<open>
  Modelled from the spec: \<^verbatim>\<open>isFunctionType\<close> of compiler-core, the function-type
  detection: function declarations and expressions, arrow functions and methods.
\<close>

definition isFunctionType_spec :: "node \<Rightarrow> bool" where
  "isFunctionType_spec n =
    (ntype n \<in> set [''FunctionDeclaration'', ''FunctionExpression'',
       ''ArrowFunctionExpression'', ''ObjectMethod'', ''ClassMethod'', ''ClassPrivateMethod''])"

text \<open>
  Modelled from the spec: \<^verbatim>\<open>isCallOf\<close> of compiler-core, the call-expression matching:
  a call expression whose callee is the identifier of the given, non-empty name.
\<close>

definition isCallOf_spec :: "node \<Rightarrow> string \<Rightarrow> bool" where
  "isCallOf_spec n test =
    (test \<noteq> [] \<and> ntype n = ''CallExpression'' \<and>
     (case get_kid n ''callee'' of
        None \<Rightarrow> False
      | Some callee \<Rightarrow> ntype callee = ''Identifier'' \<and> nname callee = test))"

text \<open>
  Modelled from the spec: \<^verbatim>\<open>unwrapTSNode\<close> of compiler-core: the expression inside the
  hybrid type and value nodes, the three that the walk does not treat as type nodes.
\<close>

function unwrapTSNode_spec :: "node \<Rightarrow> node" where
  "unwrapTSNode_spec n =
    (if ntype n \<in> set [''TSAsExpression'', ''TSTypeAssertion'', ''TSNonNullExpression'']
     then (case get_kid n ''expression'' of
             None \<Rightarrow> n
           | Some e \<Rightarrow> unwrapTSNode_spec e)
     else n)"
  by pat_completeness auto
termination
  by (relation "measure size") (auto simp: get_kid_size)

text \<open>
  Modelled from the spec: \<^verbatim>\<open>extractIdentifiers\<close> of compiler-core, the identifier
  extraction: every bound name of a simple name or of nested array, object and rest
  patterns, defaults included.
\<close>

function extractIdentifiers_spec :: "node \<Rightarrow> node list" where
  "extractIdentifiers_spec n =
    (if ntype n = ''Identifier'' then [n]
     else if ntype n = ''ObjectPattern'' then
       concat (map (\<lambda>p.
         if ntype p = ''RestElement'' then
           (case get_kid p ''argument'' of
              None \<Rightarrow> []
            | Some a \<Rightarrow> extractIdentifiers_spec a)
         else
           (case get_kid p ''value'' of
              None \<Rightarrow> []
            | Some v \<Rightarrow> extractIdentifiers_spec v)) (get_kids n ''properties''))
     else if ntype n = ''ArrayPattern'' then
       concat (map extractIdentifiers_spec (get_kids n ''elements''))
     else if ntype n = ''RestElement'' then
       (case get_kid n ''argument'' of
          None \<Rightarrow> []
        | Some a \<Rightarrow> extractIdentifiers_spec a)
     else if ntype n = ''AssignmentPattern'' then
       (case get_kid n ''left'' of
          None \<Rightarrow> []
        | Some l \<Rightarrow> extractIdentifiers_spec l)
     else [])"
  by pat_completeness auto
termination
proof (relation "measure size", goal_cases)
  case 1
  show ?case by simp
next
  case (2 n p a)
  then show ?case
    using get_kid_size [of p "''argument''" a] get_kids_size [of p n "''properties''"] by simp
next
  case (3 n p v)
  then show ?case
    using get_kid_size [of p "''value''" v] get_kids_size [of p n "''properties''"] by simp
next
  case (4 n c)
  then show ?case by (simp add: get_kids_size)
next
  case (5 n a)
  then show ?case by (simp add: get_kid_size)
next
  case (6 n l)
  then show ?case by (simp add: get_kid_size)
qed

text \<open>
  Modelled from the spec: \<^verbatim>\<open>walkFunctionParams\<close> of compiler-core: the bound names of
  all parameters, in order.
\<close>

definition walkFunctionParams_spec :: "node \<Rightarrow> node list" where
  "walkFunctionParams_spec n = concat (map extractIdentifiers_spec (get_kids n ''params''))"

definition endsWith :: "string \<Rightarrow> string \<Rightarrow> bool" where
  "endsWith str suf = (take (length suf) (rev str) = rev suf)"

text \<open>
  Modelled from the spec: \<^verbatim>\<open>isInDestructureAssignment\<close> of compiler-core. A pattern is
  an assignment target and not a binding position when, going up from it through
  object properties and patterns only, an assignment expression is reached.
\<close>

fun upToAssignment :: "node list \<Rightarrow> bool" where
  "upToAssignment [] = False"
| "upToAssignment (p # ps) =
    (if ntype p = ''AssignmentExpression'' then True
     else if ntype p \<noteq> ''ObjectProperty'' \<and> \<not> endsWith (ntype p) ''Pattern'' then False
     else upToAssignment ps)"

definition isInDestructureAssignment_spec :: "node \<Rightarrow> node list \<Rightarrow> bool" where
  "isInDestructureAssignment_spec parent pstack =
    ((ntype parent = ''ObjectProperty'' \<or> ntype parent = ''ArrayPattern'')
     \<and> upToAssignment (rev pstack))"

text \<open>
  Modelled from the spec: \<^verbatim>\<open>isStaticProperty\<close> of compiler-core: an object property or
  method whose key is not computed.
\<close>

definition isStaticProperty_spec :: "node \<Rightarrow> bool" where
  "isStaticProperty_spec n =
    ((ntype n = ''ObjectProperty'' \<or> ntype n = ''ObjectMethod'') \<and> \<not> has_flag n ''computed'')"

text \<open>
  Modelled from the spec: \<^verbatim>\<open>isReferencedIdentifier\<close> of compiler-core, the test for a
  genuine reference: not a declaration site, not a property key or member name that is
  not computed, not a label; an assignment target counts, a pattern element only in a
  destructuring assignment.
\<close>

definition isReferenced_spec :: "node \<Rightarrow> node \<Rightarrow> bool" where
  "isReferenced_spec n parent =
    (let t = ntype parent in
     if t = ''MemberExpression'' \<or> t = ''OptionalMemberExpression'' then
       (if same_node (get_kid parent ''property'') n then has_flag parent ''computed''
        else same_node (get_kid parent ''object'') n)
     else if t = ''VariableDeclarator'' then same_node (get_kid parent ''init'') n
     else if t = ''ArrowFunctionExpression'' then same_node (get_kid parent ''body'') n
     else if t = ''ObjectMethod'' \<or> t = ''ClassMethod'' \<or> t = ''ClassPrivateMethod'' then
       (same_node (get_kid parent ''key'') n \<and> has_flag parent ''computed'')
     else if t = ''ObjectProperty'' \<or> t = ''ClassProperty'' then
       (if same_node (get_kid parent ''key'') n then has_flag parent ''computed'' else True)
     else if t = ''ClassDeclaration'' \<or> t = ''ClassExpression'' then
       same_node (get_kid parent ''superClass'') n
     else if t = ''AssignmentExpression'' \<or> t = ''AssignmentPattern'' then
       same_node (get_kid parent ''right'') n
     else if t \<in> set [''LabeledStatement'', ''BreakStatement'', ''ContinueStatement'',
         ''CatchClause'', ''RestElement'', ''FunctionDeclaration'', ''FunctionExpression'',
         ''ObjectPattern'', ''ArrayPattern'', ''ImportSpecifier'', ''ImportDefaultSpecifier'',
         ''ImportNamespaceSpecifier'', ''MetaProperty''] then False
     else True)"

definition isReferencedIdentifier_spec :: "node \<Rightarrow> node option \<Rightarrow> node list \<Rightarrow> bool" where
  "isReferencedIdentifier_spec n parent pstack =
    (case parent of
       None \<Rightarrow> True
     | Some p \<Rightarrow>
         if nname n = ''arguments'' then False
         else if isReferenced_spec n p then True
         else if ntype p = ''AssignmentExpression'' \<or> ntype p = ''AssignmentPattern'' then True
         else if ntype p = ''ObjectPattern'' \<or> ntype p = ''ArrayPattern''
           then isInDestructureAssignment_spec p pstack
         else False)"

text \<open>
  Modelled from the spec: \<^verbatim>\<open>genPropsAccessExp\<close> of shared, the explicit access against
  the properties object: \<^verbatim>\<open>__props.x\<close> as in the comments of the pass, for a name that
  is an identifier.
\<close>

definition genPropsAccessExp_spec :: "string option \<Rightarrow> string" where
  "genPropsAccessExp_spec name =
    ''__props.'' @ (case name of None \<Rightarrow> ''undefined'' | Some x \<Rightarrow> x)"

definition helpers_spec :: helpers where
  "helpers_spec =
    \<lparr>isFunctionType = isFunctionType_spec,
     isCallOf = isCallOf_spec,
     unwrapTSNode = unwrapTSNode_spec,
     extractIdentifiers = extractIdentifiers_spec,
     walkFunctionParams = walkFunctionParams_spec,
     isReferencedIdentifier = isReferencedIdentifier_spec,
     isInDestructureAssignment = isInDestructureAssignment_spec,
     isStaticProperty = isStaticProperty_spec,
     genPropsAccessExp = genPropsAccessExp_spec\<rparr>"

section \<open>Concrete trees\<close>

text \<open>An identifier with its name and span, and a node of another kind with its children.\<close>

definition ident :: "nat \<Rightarrow> string \<Rightarrow> int \<Rightarrow> int \<Rightarrow> node" where
  "ident i x a b = Node ''Identifier'' i x a b [] []"

definition mk :: "string \<Rightarrow> nat \<Rightarrow> (string \<times> node) list \<Rightarrow> node" where
  "mk t i kids = Node t i [] 0 0 [] kids"

text \<open>
  The scenario of the specification: the props \<^verbatim>\<open>count\<close> (local name \<^verbatim>\<open>count\<close>) and
  \<^verbatim>\<open>label\<close> (local name \<^verbatim>\<open>aliasedLabel\<close>), \<^verbatim>\<open>watch\<close> imported as \<^verbatim>\<open>track\<close>, and the program
  \<^verbatim>\<open>function f(count) { count }\<close>, \<^verbatim>\<open>count\<close>, \<^verbatim>\<open>aliasedLabel\<close>.
\<close>

definition propsEx :: "(string \<times> string) list" where
  "propsEx = [(''count'', ''count''), (''label'', ''aliasedLabel'')]"

definition aliasesEx :: "string \<rightharpoonup> string" where
  "aliasesEx = [''watch'' \<mapsto> ''track'']"

definition rootEx :: scope where
  "rootEx = [''count'' \<mapsto> True, ''aliasedLabel'' \<mapsto> True]"

definition envEx :: env where
  "envEx = \<lparr>hs = helpers_spec, offset = 0, vueImportAliases = aliasesEx,
     propsLocalToPublicMap = [''count'' \<mapsto> ''count'', ''aliasedLabel'' \<mapsto> ''label'']\<rparr>"

definition innerRefEx :: node where
  "innerRefEx = ident 6 ''count'' 20 25"

definition innerStmtEx :: node where
  "innerStmtEx = mk ''ExpressionStatement'' 5 [(''expression'', innerRefEx)]"

definition fnBodyEx :: node where
  "fnBodyEx = mk ''BlockStatement'' 4 [(''body'', innerStmtEx)]"

definition paramEx :: node where
  "paramEx = ident 3 ''count'' 11 16"

definition fnEx :: node where
  "fnEx = mk ''FunctionDeclaration'' 1
     [(''id'', ident 2 ''f'' 9 10), (''params'', paramEx), (''body'', fnBodyEx)]"

definition labelRefEx :: node where
  "labelRefEx = ident 10 ''aliasedLabel'' 34 46"

definition labelStmtEx :: node where
  "labelStmtEx = mk ''ExpressionStatement'' 9 [(''expression'', labelRefEx)]"

definition scenarioEx :: node where
  "scenarioEx = mk ''Program'' 0
     [(''body'', fnEx),
      (''body'', mk ''ExpressionStatement'' 7 [(''expression'', ident 8 ''count'' 28 33)]),
      (''body'', labelStmtEx)]"

text \<open>The state of the walk over the scenario at the top level.\<close>

definition stTopEx :: state where
  "stTopEx = \<lparr>scopeStack = [rootEx(''f'' \<mapsto> False)], excludedIds = {2},
     parentStack = [scenarioEx], edits = []\<rparr>"

text \<open>The state in which the walk over a program without declarations starts.\<close>

definition stRootEx :: state where
  "stRootEx = \<lparr>scopeStack = [rootEx], excludedIds = {}, parentStack = [], edits = []\<rparr>"

text \<open>\<^verbatim>\<open>count satisfies T\<close>\<close>

definition exSatisfies :: node where
  "exSatisfies = mk ''Program'' 0
     [(''body'', mk ''ExpressionStatement'' 1
         [(''expression'', mk ''TSSatisfiesExpression'' 2
             [(''expression'', ident 3 ''count'' 0 5),
              (''typeAnnotation'', mk ''TSTypeReference'' 4
                 [(''typeName'', ident 5 ''T'' 16 17)])])])]"




text \<open>\<^verbatim>\<open>count\<close> and then \<^verbatim>\<open>count++\<close>\<close>

definition updateRefEx :: node where
  "updateRefEx = ident 5 ''count'' 6 11"

definition exAtomic :: node where
  "exAtomic = mk ''Program'' 0
     [(''body'', mk ''ExpressionStatement'' 1 [(''expression'', ident 2 ''count'' 0 5)]),
      (''body'', mk ''ExpressionStatement'' 3
         [(''expression'', mk ''UpdateExpression'' 4 [(''argument'', updateRefEx)])])]"

text \<open>\<^verbatim>\<open>let foo = 1\<close> and then \<^verbatim>\<open>watch(foo)\<close>\<close>

definition exWatchLocal :: node where
  "exWatchLocal = mk ''Program'' 0
     [(''body'', mk ''VariableDeclaration'' 1
         [(''declarations'', mk ''VariableDeclarator'' 2
             [(''id'', ident 3 ''foo'' 4 7), (''init'', mk ''NumericLiteral'' 4 [])])]),
      (''body'', mk ''ExpressionStatement'' 5
         [(''expression'', mk ''CallExpression'' 6
             [(''callee'', ident 7 ''watch'' 12 17),
              (''arguments'', ident 8 ''foo'' 18 21)])])]"

text \<open>\<^verbatim>\<open>try {} catch (count) {}\<close> and then \<^verbatim>\<open>count\<close>; and \<^verbatim>\<open>count\<close> alone at the same place.\<close>

definition exCatchLeak :: node where
  "exCatchLeak = mk ''Program'' 0
     [(''body'', mk ''TryStatement'' 1
         [(''block'', mk ''BlockStatement'' 2 []),
          (''handler'', mk ''CatchClause'' 3
             [(''param'', ident 4 ''count'' 14 19),
              (''body'', mk ''BlockStatement'' 5 [])])]),
      (''body'', mk ''ExpressionStatement'' 6
         [(''expression'', ident 7 ''count'' 24 29)])]"

definition exNoCatch :: node where
  "exNoCatch = mk ''Program'' 0
     [(''body'', mk ''ExpressionStatement'' 6
         [(''expression'', ident 7 ''count'' 24 29)])]"

text \<open>\<^verbatim>\<open>try {} catch ([count]) { count }\<close>\<close>

definition exCatchPattern :: node where
  "exCatchPattern = mk ''Program'' 0
     [(''body'', mk ''TryStatement'' 1
         [(''block'', mk ''BlockStatement'' 2 []),
          (''handler'', mk ''CatchClause'' 3
             [(''param'', mk ''ArrayPattern'' 4 [(''elements'', ident 5 ''count'' 15 20)]),
              (''body'', mk ''BlockStatement'' 6
                 [(''body'', mk ''ExpressionStatement'' 7
                     [(''expression'', ident 8 ''count'' 25 30)])])])])]"

text \<open>
  \<^verbatim>\<open>try {} catch ({ count }) {}\<close>; the shorthand property of the pattern has a key and a
  value node, as the parser gives them.
\<close>

definition exCatchObjectPattern :: node where
  "exCatchObjectPattern = mk ''Program'' 0
     [(''body'', mk ''TryStatement'' 1
         [(''block'', mk ''BlockStatement'' 2 []),
          (''handler'', mk ''CatchClause'' 3
             [(''param'', mk ''ObjectPattern'' 4
                 [(''properties'', Node ''ObjectProperty'' 5 [] 16 21 [''shorthand'']
                     [(''key'', ident 6 ''count'' 16 21), (''value'', ident 7 ''count'' 16 21)])]),
              (''body'', mk ''BlockStatement'' 8 [])])])]"

text \<open>\<^verbatim>\<open>for (let count = 0; count < 3; count++) {}\<close>\<close>

definition exForLet :: node where
  "exForLet = mk ''Program'' 0
     [(''body'', mk ''ForStatement'' 1
         [(''init'', mk ''VariableDeclaration'' 2
             [(''declarations'', mk ''VariableDeclarator'' 3
                 [(''id'', ident 4 ''count'' 9 14), (''init'', mk ''NumericLiteral'' 5 [])])]),
          (''test'', mk ''BinaryExpression'' 6
             [(''left'', ident 7 ''count'' 20 25), (''right'', mk ''NumericLiteral'' 8 [])]),
          (''update'', mk ''UpdateExpression'' 9 [(''argument'', ident 10 ''count'' 31 36)]),
          (''body'', mk ''BlockStatement'' 11 [])])]"

text \<open>\<^verbatim>\<open>for (let { a: count } = obj; ; ) {}\<close>\<close>

definition exForPattern :: node where
  "exForPattern = mk ''Program'' 0
     [(''body'', mk ''ForStatement'' 1
         [(''init'', mk ''VariableDeclaration'' 2
             [(''declarations'', mk ''VariableDeclarator'' 3
                 [(''id'', mk ''ObjectPattern'' 4
                     [(''properties'', Node ''ObjectProperty'' 5 [] 11 19 []
                         [(''key'', ident 6 ''a'' 11 12), (''value'', ident 7 ''count'' 14 19)])]),
                  (''init'', ident 8 ''obj'' 24 27)])]),
          (''body'', mk ''BlockStatement'' 9 [])])]"

text \<open>\<^verbatim>\<open>count\<close>, \<^verbatim>\<open>count++\<close> and \<^verbatim>\<open>aliasedLabel\<close>, one statement a line.\<close>

definition updateExprEx :: node where
  "updateExprEx = mk ''UpdateExpression'' 4 [(''argument'', updateRefEx)]"

definition updateStmtEx :: node where
  "updateStmtEx = mk ''ExpressionStatement'' 3 [(''expression'', updateExprEx)]"

definition exFailFast :: node where
  "exFailFast = mk ''Program'' 0
     [(''body'', mk ''ExpressionStatement'' 1 [(''expression'', ident 2 ''count'' 0 5)]),
      (''body'', updateStmtEx),
      (''body'', mk ''ExpressionStatement'' 6
         [(''expression'', ident 7 ''aliasedLabel'' 14 26)])]"


section \<open>The edit buffer only grows\<close>

definition keepsEdits :: "edit list \<Rightarrow> state result \<Rightarrow> bool" where
  "keepsEdits s r = (case r of Inl (e, s') \<Rightarrow> s' = s | Inr st \<Rightarrow> edits st = s)"

definition growsEdits :: "edit list \<Rightarrow> state result \<Rightarrow> bool" where
  "growsEdits s r = (case r of Inl (e, s') \<Rightarrow> prefix s s' | Inr st \<Rightarrow> prefix s (edits st))"

definition growsCtl :: "edit list \<Rightarrow> (walk_ctl \<times> state) result \<Rightarrow> bool" where
  "growsCtl s r = (case r of Inl (e, s') \<Rightarrow> prefix s s' | Inr (c, st) \<Rightarrow> prefix s (edits st))"

text \<open>A step that throws has left the buffer as it found it.\<close>

definition throwKeeps :: "edit list \<Rightarrow> 'a result \<Rightarrow> bool" where
  "throwKeeps s r = (case r of Inl (e, s') \<Rightarrow> s' = s | Inr x \<Rightarrow> True)"

section \<open>The scope stack over a visit\<close>

text \<open>The nodes for which \<open>enter\<close> pushes a scope, and those for which \<open>leave\<close> pops one.\<close>

definition pushesScope :: "env \<Rightarrow> node \<Rightarrow> node option \<Rightarrow> bool" where
  "pushesScope env n parent =
    (isFunctionType (hs env) n \<or> ntype n = ''CatchClause''
     \<or> (ntype n = ''BlockStatement'' \<and>
         (case parent of None \<Rightarrow> False | Some p \<Rightarrow> \<not> isFunctionType (hs env) p)))"

definition popsScope :: "env \<Rightarrow> node \<Rightarrow> node option \<Rightarrow> bool" where
  "popsScope env n parent =
    (isFunctionType (hs env) n
     \<or> (ntype n = ''BlockStatement'' \<and>
         (case parent of None \<Rightarrow> False | Some p \<Rightarrow> \<not> isFunctionType (hs env) p)))"

text \<open>The length of the scope stack at the end of a step, when the step does not throw.\<close>

definition keepsScopes :: "nat \<Rightarrow> state result \<Rightarrow> bool" where
  "keepsScopes k r = (case r of Inl e \<Rightarrow> True | Inr st \<Rightarrow> length (scopeStack st) = k)"

definition scopesCtl :: "nat \<Rightarrow> (walk_ctl \<times> state) result \<Rightarrow> bool" where
  "scopesCtl k r =
    (case r of Inl e \<Rightarrow> True | Inr (c, st) \<Rightarrow> c = Descend \<and> length (scopeStack st) = k)"

section \<open>Lemmas\<close>

declare visit.simps [simp del]

declare extractIdentifiers_spec.simps [simp del]

declare unwrapTSNode_spec.simps [simp del]

lemma keeps_grows: "keepsEdits s r \<Longrightarrow> growsEdits s r"
  by (auto simp: keepsEdits_def growsEdits_def split: sum.splits)

lemma keeps_Inr: "keepsEdits s (Inr st) = (edits st = s)"
  by (simp add: keepsEdits_def)

lemma keeps_throw: "keepsEdits s (throw e st) = (edits st = s)"
  by (simp add: keepsEdits_def throw_def)

lemma keeps_registerLocalBinding: "keepsEdits (edits st) (registerLocalBinding idn st)"
  by (simp add: registerLocalBinding_def keeps_Inr keeps_throw Let_def split: list.splits)

lemma keeps_bind:
  assumes "keepsEdits s r" and "\<And>st1. edits st1 = s \<Longrightarrow> keepsEdits s (k st1)"
  shows "keepsEdits s (case r of Inl e \<Rightarrow> Inl e | Inr st1 \<Rightarrow> k st1)"
proof (cases r)
  case (Inl e)
  then show ?thesis using assms(1) by (simp add: keepsEdits_def)
next
  case (Inr st1)
  then have "edits st1 = s" using assms(1) by (simp add: keepsEdits_def)
  from assms(2) [OF this] show ?thesis using Inr by simp
qed

lemma keeps_registerAll: "keepsEdits (edits st) (registerAll ids st)"
proof (induction ids arbitrary: st)
  case Nil
  show ?case by (simp add: keeps_Inr)
next
  case (Cons idn ids)
  show ?case
    unfolding registerAll.simps
    by (rule keeps_bind [OF keeps_registerLocalBinding]) (metis Cons.IH)
qed

lemma keeps_walkDeclarators: "keepsEdits (edits st) (walkDeclarators env isRoot decls st)"
proof (induction decls arbitrary: st)
  case Nil
  show ?case by (simp add: keeps_Inr)
next
  case (Cons decl decls)
  have step: "keepsEdits (edits st)
      (if b then Inr (excludeAll (extractIdentifiers (hs env) pat) st)
       else registerAll (extractIdentifiers (hs env) pat) st)" for b pat
    by (simp add: keeps_Inr excludeAll_def keeps_registerAll)
  show ?case
  proof (cases "get_kid decl ''id''")
    case None
    then show ?thesis by (simp add: keeps_throw)
  next
    case (Some pat)
    define b where "b = (isRoot \<and>
        (case get_kid decl ''init'' of
           None \<Rightarrow> False
         | Some init \<Rightarrow> isCallOf (hs env) (unwrapTSNode (hs env) init) ''defineProps''))"
    have eq: "walkDeclarators env isRoot (decl # decls) st =
        (case (if b then Inr (excludeAll (extractIdentifiers (hs env) pat) st)
               else registerAll (extractIdentifiers (hs env) pat) st) of
           Inl e \<Rightarrow> Inl e
         | Inr st1 \<Rightarrow> walkDeclarators env isRoot decls st1)"
      using Some by (simp add: b_def Let_def)
    show ?thesis
      unfolding eq by (rule keeps_bind [OF step]) (metis Cons.IH)
  qed
qed

lemma keeps_walkVariableDeclaration:
  "keepsEdits (edits st) (walkVariableDeclaration env stmt isRoot st)"
  by (simp add: walkVariableDeclaration_def keeps_Inr keeps_walkDeclarators)

lemma keeps_walkStatement: "keepsEdits (edits st) (walkStatement env isRoot stmt st)"
  by (simp add: walkStatement_def keeps_Inr keeps_throw keeps_walkVariableDeclaration
      keeps_registerLocalBinding split: option.splits)

lemma keeps_walkStatements: "keepsEdits (edits st) (walkStatements env isRoot stmts st)"
proof (induction stmts arbitrary: st)
  case Nil
  show ?case by (simp add: keeps_Inr)
next
  case (Cons stmt stmts)
  show ?case
    unfolding walkStatements.simps
    by (rule keeps_bind [OF keeps_walkStatement]) (metis Cons.IH)
qed

lemma keeps_walkScope: "keepsEdits (edits st) (walkScope env n isRoot st)"
  by (simp add: walkScope_def keeps_walkStatements)

lemma keeps_checkUsage: "keepsEdits (edits st) (checkUsage env n method alias st)"
  by (simp add: checkUsage_def keeps_Inr keeps_throw Let_def split: option.splits)

lemma grows_walkUpScopes: "growsEdits (edits st) (walkUpScopes env scs n parent ps st)"
proof (induction scs arbitrary: st)
  case Nil
  show ?case by (simp add: growsEdits_def)
next
  case (Cons sc scs)
  show ?case
  proof (cases "sc (nname n)")
    case None
    then show ?thesis using Cons.IH [of st] by (simp add: rewriteId_def)
  next
    case (Some b)
    then show ?thesis
      by (simp add: rewriteId_def growsEdits_def throw_def split: option.splits)
  qed
qed

lemma growsCtl_descend: "growsEdits s r \<Longrightarrow> growsCtl s (descend r)"
  by (auto simp: growsEdits_def growsCtl_def descend_def split: sum.splits)

lemma growsCtl_Inr: "growsCtl s (Inr (c, st)) = prefix s (edits st)"
  by (simp add: growsCtl_def)

lemma growsCtl_throw: "growsCtl s (throw e st) = prefix s (edits st)"
  by (simp add: growsCtl_def throw_def)

lemma growsCtl_bind:
  assumes "keepsEdits s r" and "\<And>st1. edits st1 = s \<Longrightarrow> growsCtl s (k st1)"
  shows "growsCtl s (case r of Inl e \<Rightarrow> Inl e | Inr st1 \<Rightarrow> k st1)"
proof (cases r)
  case (Inl e)
  then show ?thesis using assms(1) by (cases e) (simp add: keepsEdits_def growsCtl_def)
next
  case (Inr st1)
  then have "edits st1 = s" using assms(1) by (simp add: keepsEdits_def)
  from assms(2) [OF this] show ?thesis using Inr by simp
qed

lemma edits_pushScope: "edits (pushScope st) = edits st"
  by (simp add: pushScope_def)

lemma edits_popScope: "edits (popScope st) = edits st"
  by (simp add: popScope_def)

lemma edits_pushParent: "edits (pushParent parent st) = edits st"
  by (simp add: pushParent_def split: option.splits)

lemma edits_popParent: "edits (popParent parent st) = edits st"
  by (simp add: popParent_def split: option.splits)

lemma grows_enterNode: "growsCtl (edits st) (enterNode env n parent st)"
proof -
  have fn: "growsCtl (edits st)
      (case registerAll (walkFunctionParams (hs env) n) (pushScope st) of
         Inl e \<Rightarrow> Inl e
       | Inr st3 \<Rightarrow>
           (case get_kid n ''body'' of
              None \<Rightarrow> throw RuntimeTypeError st3
            | Some body \<Rightarrow>
                if ntype body = ''BlockStatement''
                then descend (walkScope env body False st3)
                else Inr (Descend, st3)))"
  proof (rule growsCtl_bind)
    show "keepsEdits (edits st) (registerAll (walkFunctionParams (hs env) n) (pushScope st))"
      using keeps_registerAll [of "pushScope st"] by (simp add: edits_pushScope)
  next
    fix st1 :: state assume "edits st1 = edits st"
    then show "growsCtl (edits st)
      (case get_kid n ''body'' of
         None \<Rightarrow> throw RuntimeTypeError st1
       | Some body \<Rightarrow>
           if ntype body = ''BlockStatement''
           then descend (walkScope env body False st1)
           else Inr (Descend, st1))"
      using keeps_walkScope [of st1 env _ False]
      by (auto simp: growsCtl_throw growsCtl_Inr intro!: growsCtl_descend keeps_grows
          split: option.splits)
  qed
  have ct: "growsCtl (edits st)
      (case (case get_kid n ''param'' of
               None \<Rightarrow> Inr (pushScope st)
             | Some param \<Rightarrow>
                 if ntype param = ''Identifier''
                 then registerLocalBinding param (pushScope st)
                 else Inr (pushScope st)) of
         Inl e \<Rightarrow> Inl e
       | Inr st3 \<Rightarrow>
           (case get_kid n ''body'' of
              None \<Rightarrow> throw RuntimeTypeError st3
            | Some body \<Rightarrow> descend (walkScope env body False st3)))"
  proof (rule growsCtl_bind)
    show "keepsEdits (edits st)
      (case get_kid n ''param'' of
         None \<Rightarrow> Inr (pushScope st)
       | Some param \<Rightarrow>
           if ntype param = ''Identifier''
           then registerLocalBinding param (pushScope st)
           else Inr (pushScope st))"
      using keeps_registerLocalBinding [of "pushScope st"]
      by (simp add: edits_pushScope keeps_Inr split: option.splits)
  next
    fix st1 :: state assume "edits st1 = edits st"
    then show "growsCtl (edits st)
      (case get_kid n ''body'' of
         None \<Rightarrow> throw RuntimeTypeError st1
       | Some body \<Rightarrow> descend (walkScope env body False st1))"
      using keeps_walkScope [of st1 env _ False]
      by (auto simp: growsCtl_throw intro!: growsCtl_descend keeps_grows split: option.splits)
  qed
  have bl: "growsCtl (edits st)
      (case parent of
         None \<Rightarrow> throw RuntimeTypeError st
       | Some p \<Rightarrow>
           if isFunctionType (hs env) p then Inr (Descend, st)
           else descend (walkScope env n False (pushScope st)))"
    using keeps_walkScope [of "pushScope st" env n False]
    by (auto simp: growsCtl_throw growsCtl_Inr edits_pushScope
        intro!: growsCtl_descend keeps_grows split: option.splits)
  have idn: "growsCtl (edits st)
      (if isReferencedIdentifier (hs env) n parent (parentStack st) \<and> nid n \<notin> excludedIds st
       then descend (walkUpScopes env (rev (scopeStack st)) n parent (parentStack st) st)
       else Inr (Descend, st))"
    by (simp add: growsCtl_Inr growsCtl_descend grows_walkUpScopes)
  show ?thesis
    unfolding enterNode_def using fn ct bl idn by (simp add: growsCtl_Inr)
qed

lemma grows_enter: "growsCtl (edits st) (enter env n parent st)"
proof -
  have "growsCtl (edits (pushParent parent st))
     (case checkUsage env n ''watch'' (vueImportAliases env ''watch'') (pushParent parent st) of
        Inl e \<Rightarrow> Inl e
      | Inr st1 \<Rightarrow>
          (case checkUsage env n ''toRef'' (vueImportAliases env ''toRef'') st1 of
             Inl e \<Rightarrow> Inl e
           | Inr st2 \<Rightarrow> enterNode env n parent st2))"
  proof (rule growsCtl_bind [OF keeps_checkUsage])
    fix st1 :: state assume a: "edits st1 = edits (pushParent parent st)"
    show "growsCtl (edits (pushParent parent st))
      (case checkUsage env n ''toRef'' (vueImportAliases env ''toRef'') st1 of
         Inl e \<Rightarrow> Inl e
       | Inr st2 \<Rightarrow> enterNode env n parent st2)"
    proof (rule growsCtl_bind)
      show "keepsEdits (edits (pushParent parent st))
         (checkUsage env n ''toRef'' (vueImportAliases env ''toRef'') st1)"
        using keeps_checkUsage [of st1] a by simp
    next
      fix st2 :: state assume "edits st2 = edits (pushParent parent st)"
      then show "growsCtl (edits (pushParent parent st)) (enterNode env n parent st2)"
        using grows_enterNode [of st2] by simp
    qed
  qed
  then show ?thesis
    by (simp add: enter_def Let_def growsCtl_Inr edits_pushParent)
qed

lemma keeps_throwKeeps: "keepsEdits s r \<Longrightarrow> throwKeeps s r"
  by (auto simp: keepsEdits_def throwKeeps_def split: sum.splits)

lemma throwKeeps_Inr: "throwKeeps s (Inr x)"
  by (simp add: throwKeeps_def)

lemma throwKeeps_throw: "throwKeeps s (throw e st) = (edits st = s)"
  by (simp add: throwKeeps_def throw_def)

lemma throwKeeps_descend: "throwKeeps s r \<Longrightarrow> throwKeeps s (descend r)"
  by (auto simp: throwKeeps_def descend_def split: sum.splits)

lemma throwKeeps_bind:
  assumes "keepsEdits s r" and "\<And>st1. edits st1 = s \<Longrightarrow> throwKeeps s (k st1)"
  shows "throwKeeps s (case r of Inl e \<Rightarrow> Inl e | Inr st1 \<Rightarrow> k st1)"
proof (cases r)
  case (Inl e)
  then show ?thesis using assms(1) by (cases e) (simp add: keepsEdits_def throwKeeps_def)
next
  case (Inr st1)
  then have "edits st1 = s" using assms(1) by (simp add: keepsEdits_def)
  from assms(2) [OF this] show ?thesis using Inr by simp
qed

lemma throwKeeps_walkUpScopes:
  "throwKeeps (edits st) (walkUpScopes env scs n parent ps st)"
proof (induction scs arbitrary: st)
  case Nil
  show ?case by (simp add: throwKeeps_def)
next
  case (Cons sc scs)
  show ?case
  proof (cases "sc (nname n)")
    case None
    then show ?thesis using Cons.IH [of st] by (simp add: rewriteId_def)
  next
    case (Some b)
    then show ?thesis
      by (simp add: rewriteId_def throwKeeps_def throw_def split: option.splits)
  qed
qed

lemma throwKeeps_enterNode: "throwKeeps (edits st) (enterNode env n parent st)"
proof -
  have fn: "throwKeeps (edits st)
      (case registerAll (walkFunctionParams (hs env) n) (pushScope st) of
         Inl e \<Rightarrow> Inl e
       | Inr st3 \<Rightarrow>
           (case get_kid n ''body'' of
              None \<Rightarrow> throw RuntimeTypeError st3
            | Some body \<Rightarrow>
                if ntype body = ''BlockStatement''
                then descend (walkScope env body False st3)
                else Inr (Descend, st3)))"
  proof (rule throwKeeps_bind)
    show "keepsEdits (edits st) (registerAll (walkFunctionParams (hs env) n) (pushScope st))"
      using keeps_registerAll [of "pushScope st"] by (simp add: edits_pushScope)
  next
    fix st1 :: state assume "edits st1 = edits st"
    then show "throwKeeps (edits st)
      (case get_kid n ''body'' of
         None \<Rightarrow> throw RuntimeTypeError st1
       | Some body \<Rightarrow>
           if ntype body = ''BlockStatement''
           then descend (walkScope env body False st1)
           else Inr (Descend, st1))"
      using keeps_walkScope [of st1 env _ False]
      by (auto simp: throwKeeps_throw throwKeeps_Inr
          intro!: throwKeeps_descend keeps_throwKeeps split: option.splits)
  qed
  have ct: "throwKeeps (edits st)
      (case (case get_kid n ''param'' of
               None \<Rightarrow> Inr (pushScope st)
             | Some param \<Rightarrow>
                 if ntype param = ''Identifier''
                 then registerLocalBinding param (pushScope st)
                 else Inr (pushScope st)) of
         Inl e \<Rightarrow> Inl e
       | Inr st3 \<Rightarrow>
           (case get_kid n ''body'' of
              None \<Rightarrow> throw RuntimeTypeError st3
            | Some body \<Rightarrow> descend (walkScope env body False st3)))"
  proof (rule throwKeeps_bind)
    show "keepsEdits (edits st)
      (case get_kid n ''param'' of
         None \<Rightarrow> Inr (pushScope st)
       | Some param \<Rightarrow>
           if ntype param = ''Identifier''
           then registerLocalBinding param (pushScope st)
           else Inr (pushScope st))"
      using keeps_registerLocalBinding [of "pushScope st"]
      by (simp add: edits_pushScope keeps_Inr split: option.splits)
  next
    fix st1 :: state assume "edits st1 = edits st"
    then show "throwKeeps (edits st)
      (case get_kid n ''body'' of
         None \<Rightarrow> throw RuntimeTypeError st1
       | Some body \<Rightarrow> descend (walkScope env body False st1))"
      using keeps_walkScope [of st1 env _ False]
      by (auto simp: throwKeeps_throw intro!: throwKeeps_descend keeps_throwKeeps
          split: option.splits)
  qed
  have bl: "throwKeeps (edits st)
      (case parent of
         None \<Rightarrow> throw RuntimeTypeError st
       | Some p \<Rightarrow>
           if isFunctionType (hs env) p then Inr (Descend, st)
           else descend (walkScope env n False (pushScope st)))"
    using keeps_walkScope [of "pushScope st" env n False]
    by (auto simp: throwKeeps_throw throwKeeps_Inr edits_pushScope
        intro!: throwKeeps_descend keeps_throwKeeps split: option.splits)
  have idn: "throwKeeps (edits st)
      (if isReferencedIdentifier (hs env) n parent (parentStack st) \<and> nid n \<notin> excludedIds st
       then descend (walkUpScopes env (rev (scopeStack st)) n parent (parentStack st) st)
       else Inr (Descend, st))"
    by (simp add: throwKeeps_Inr throwKeeps_descend throwKeeps_walkUpScopes)
  show ?thesis
    unfolding enterNode_def using fn ct bl idn by (simp add: throwKeeps_Inr)
qed

lemma throwKeeps_enter: "throwKeeps (edits st) (enter env n parent st)"
proof -
  have "throwKeeps (edits (pushParent parent st))
     (case checkUsage env n ''watch'' (vueImportAliases env ''watch'') (pushParent parent st) of
        Inl e \<Rightarrow> Inl e
      | Inr st1 \<Rightarrow>
          (case checkUsage env n ''toRef'' (vueImportAliases env ''toRef'') st1 of
             Inl e \<Rightarrow> Inl e
           | Inr st2 \<Rightarrow> enterNode env n parent st2))"
  proof (rule throwKeeps_bind [OF keeps_checkUsage])
    fix st1 :: state assume a: "edits st1 = edits (pushParent parent st)"
    show "throwKeeps (edits (pushParent parent st))
      (case checkUsage env n ''toRef'' (vueImportAliases env ''toRef'') st1 of
         Inl e \<Rightarrow> Inl e
       | Inr st2 \<Rightarrow> enterNode env n parent st2)"
    proof (rule throwKeeps_bind)
      show "keepsEdits (edits (pushParent parent st))
         (checkUsage env n ''toRef'' (vueImportAliases env ''toRef'') st1)"
        using keeps_checkUsage [of st1] a by simp
    next
      fix st2 :: state assume "edits st2 = edits (pushParent parent st)"
      then show "throwKeeps (edits (pushParent parent st)) (enterNode env n parent st2)"
        using throwKeeps_enterNode [of st2] by simp
    qed
  qed
  then show ?thesis
    by (simp add: enter_def Let_def throwKeeps_Inr edits_pushParent)
qed

lemma enter_throw_edits: "enter env n parent st = Inl err \<Longrightarrow> snd err = edits st"
  using throwKeeps_enter [of st env n parent] by (cases err) (simp add: throwKeeps_def)

lemma walkScope_throw_edits:
  "walkScope env n isRoot st = Inl err \<Longrightarrow> snd err = edits st"
  using keeps_walkScope [of st env n isRoot] by (cases err) (simp add: keepsEdits_def)

lemma keeps_leave: "keepsEdits (edits st) (leave env n parent st)"
  by (simp add: leave_def Let_def keeps_Inr keeps_throw edits_popScope edits_popParent
      split: option.splits)

lemma grows_trans:
  assumes "prefix s s1" and "growsEdits s1 r"
  shows "growsEdits s r"
  using assms by (auto simp: growsEdits_def split: sum.splits)

lemma grows_visit:
  "growsEdits (edits st) (visit env n parent st)"
  "growsEdits (edits st) (visitKids env p kcs st)"
proof (induction env n parent st and env p kcs st rule: visit_visitKids.induct)
  case (1 env n parent st)
  show ?case
  proof (cases "enter env n parent st")
    case (Inl e)
    then show ?thesis
      using grows_enter [of st env n parent]
      by (cases e) (simp add: visit.simps [of env n] growsCtl_def growsEdits_def)
  next
    case (Inr b)
    obtain ctl st1 where b: "b = (ctl, st1)" by (cases b)
    have p1: "prefix (edits st) (edits st1)"
      using grows_enter [of st env n parent] Inr b by (simp add: growsCtl_def)
    show ?thesis
    proof (cases ctl)
      case Skip
      then show ?thesis
        using Inr b p1 by (simp add: visit.simps [of env n] growsEdits_def)
    next
      case Descend
      have kids: "growsEdits (edits st1) (visitKids env n (nkids n) st1)"
        using "1.IH" Inr b Descend by simp
      have "growsEdits (edits st1)
          (case visitKids env n (nkids n) st1 of
             Inl e \<Rightarrow> Inl e
           | Inr st2 \<Rightarrow> leave env n parent st2)"
      proof (cases "visitKids env n (nkids n) st1")
        case (Inl e)
        then show ?thesis using kids by simp
      next
        case (Inr st2)
        have "prefix (edits st1) (edits st2)"
          using kids Inr by (simp add: growsEdits_def)
        then show ?thesis
          using Inr keeps_grows [OF keeps_leave [of st2 env n parent]]
          by (simp add: grows_trans)
      qed
      then show ?thesis
        using Inr b Descend p1 by (simp add: visit.simps [of env n] grows_trans)
    qed
  qed
next
  case (2 env p st)
  show ?case by (simp add: growsEdits_def)
next
  case (3 env p kc kcs st)
  show ?case
  proof (cases "visit env (snd kc) (Some p) st")
    case (Inl e)
    then show ?thesis using "3.IH"(1) by simp
  next
    case (Inr st1)
    have "prefix (edits st) (edits st1)"
      using "3.IH"(1) Inr by (simp add: growsEdits_def)
    then show ?thesis
      using "3.IH"(2) [OF Inr] Inr by (simp add: grows_trans)
  qed
qed

lemma visitKids_append:
  "visitKids env p (xs @ ys) st =
    (case visitKids env p xs st of Inl e \<Rightarrow> Inl e | Inr st1 \<Rightarrow> visitKids env p ys st1)"
  by (induction xs arbitrary: st) (simp_all split: sum.splits)

lemma grows_pass:
  "case transformDestructuredProps h ast s off kp al of
     Inl (e, s') \<Rightarrow> prefix s s'
   | Inr s' \<Rightarrow> prefix s s'"
proof -
  define env where "env = \<lparr>hs = h, offset = off, vueImportAliases = al,
      propsLocalToPublicMap = snd (seedProps kp (Map.empty, Map.empty))\<rparr>"
  define st0 where "st0 = \<lparr>scopeStack = [fst (seedProps kp (Map.empty, Map.empty))],
      excludedIds = {}, parentStack = [], edits = s\<rparr>"
  have e0: "edits st0 = s" by (simp add: st0_def)
  have ws: "keepsEdits s (walkScope env ast True st0)"
    using keeps_walkScope [of st0 env ast True] e0 by simp
  show ?thesis
  proof (cases "walkScope env ast True st0")
    case (Inl e)
    then show ?thesis
      using ws by (cases e) (simp add: transformDestructuredProps_def Let_def env_def [symmetric]
          st0_def [symmetric] keepsEdits_def)
  next
    case (Inr st1)
    have e1: "edits st1 = s" using ws Inr by (simp add: keepsEdits_def)
    have "growsEdits s (visit env ast None st1)"
      using grows_visit(1) [of st1 env ast None] e1 by simp
    then show ?thesis
      using Inr
      by (auto simp: transformDestructuredProps_def Let_def env_def [symmetric]
          st0_def [symmetric] growsEdits_def split: sum.splits)
  qed
qed

text \<open>
  The pass throws exactly when the collection of the top-level declarations does, or the
  walk reaches a node at which a callback throws.
\<close>

lemma pass_unfold:
  "transformDestructuredProps h ast s off kp al =
    (case walkScope (passEnv h off kp al) ast True (passStart s kp) of
       Inl e \<Rightarrow> Inl e
     | Inr st1 \<Rightarrow>
         (case visit (passEnv h off kp al) ast None st1 of
            Inl e \<Rightarrow> Inl e
          | Inr st2 \<Rightarrow> Inr (edits st2)))"
  unfolding transformDestructuredProps_def passEnv_def passStart_def Let_def by (rule refl)

lemma visit_throws_iff:
  "visit env n parent st = Inl err \<longleftrightarrow>
     throwsAt env n parent st err
     \<or> (\<exists>st1. enter env n parent st = Inr (Descend, st1)
           \<and> visitKids env n (nkids n) st1 = Inl err)"
  by (auto simp: visit.simps [of env n] throwsAt_def split: sum.splits walk_ctl.splits)

lemma visitKids_throws_split:
  "visitKids env p kcs st = Inl err \<Longrightarrow>
     \<exists>xs kc ys st1. kcs = xs @ kc # ys \<and> visitKids env p xs st = Inr st1
       \<and> visit env (snd kc) (Some p) st1 = Inl err"
proof (induction kcs arbitrary: st)
  case Nil
  then show ?case by simp
next
  case (Cons kc kcs)
  show ?case
  proof (cases "visit env (snd kc) (Some p) st")
    case (Inl e)
    then have "e = err" using Cons.prems by simp
    then have "kc # kcs = [] @ kc # kcs \<and> visitKids env p [] st = Inr st
        \<and> visit env (snd kc) (Some p) st = Inl err"
      using Inl by simp
    then show ?thesis by blast
  next
    case (Inr st1)
    then have "visitKids env p kcs st1 = Inl err" using Cons.prems by simp
    from Cons.IH [OF this] obtain xs kc' ys st2 where
      "kcs = xs @ kc' # ys" "visitKids env p xs st1 = Inr st2"
      "visit env (snd kc') (Some p) st2 = Inl err"
      by blast
    then have "kc # kcs = (kc # xs) @ kc' # ys \<and> visitKids env p (kc # xs) st = Inr st2
        \<and> visit env (snd kc') (Some p) st2 = Inl err"
      using Inr by simp
    then show ?thesis by blast
  qed
qed

lemma visitKids_throws_at_child:
  assumes "visitKids env p xs st = Inr st1"
    and "visit env (snd kc) (Some p) st1 = Inl err"
  shows "visitKids env p (xs @ kc # ys) st = Inl err"
  using assms by (simp add: visitKids_append)

lemma reaches_throw:
  "reaches env r rp st0 n parent st \<Longrightarrow> visit env n parent st = Inl err \<Longrightarrow>
   visit env r rp st0 = Inl err"
proof (induction rule: reaches.induct)
  case (here env r rp st)
  then show ?case by simp
next
  case (below env r rp st st1 xs kc ys st2 n parent st')
  have "visit env (snd kc) (Some r) st2 = Inl err"
    using below.IH below.prems by simp
  then have "visitKids env r (nkids r) st1 = Inl err"
    using below.hyps(2,3) by (simp add: visitKids_append)
  then show ?case
    using below.hyps(1) by (simp add: visit.simps [of env r])
qed

lemma kid_size: "kc \<in> set (nkids r) \<Longrightarrow> size (snd kc) < size r"
proof -
  assume "kc \<in> set (nkids r)"
  then have "size_prod (\<lambda>_. 0) size kc \<le> size_list (size_prod (\<lambda>_. 0) size) (nkids r)"
    by (simp add: size_list_estimation')
  then show ?thesis
    using nkids_size [of r] by (cases kc) simp
qed

lemma visit_throws_reaches:
  "visit env r rp st0 = Inl err \<Longrightarrow>
   \<exists>n parent st. reaches env r rp st0 n parent st \<and> throwsAt env n parent st err"
proof (induction r arbitrary: rp st0 rule: measure_induct_rule [where f = size])
  case (less r)
  show ?case
  proof (cases "throwsAt env r rp st0 err")
    case True
    then show ?thesis using reaches.here by blast
  next
    case False
    then obtain st1 where e: "enter env r rp st0 = Inr (Descend, st1)"
      and k: "visitKids env r (nkids r) st1 = Inl err"
      using less.prems by (auto simp: visit_throws_iff)
    from visitKids_throws_split [OF k] obtain xs kc ys st2 where
      s: "nkids r = xs @ kc # ys" and v: "visitKids env r xs st1 = Inr st2"
      and c: "visit env (snd kc) (Some r) st2 = Inl err"
      by blast
    have "size (snd kc) < size r"
      using s by (simp add: kid_size)
    from less.IH [OF this c] obtain n parent st where
      "reaches env (snd kc) (Some r) st2 n parent st" "throwsAt env n parent st err"
      by blast
    then show ?thesis
      using reaches.below [OF e s v] by blast
  qed
qed

lemma throwsAt_visit: "throwsAt env n parent st err \<Longrightarrow> visit env n parent st = Inl err"
  by (simp add: visit_throws_iff)

lemma visit_throws_iff_reaches:
  "visit env r rp st0 = Inl err \<longleftrightarrow>
   (\<exists>n parent st. reaches env r rp st0 n parent st \<and> throwsAt env n parent st err)"
  using visit_throws_reaches reaches_throw throwsAt_visit by blast

lemma pass_throws_iff:
  "transformDestructuredProps h ast s off kp al = Inl err \<longleftrightarrow>
     walkScope (passEnv h off kp al) ast True (passStart s kp) = Inl err
     \<or> (\<exists>st1 n parent st.
          walkScope (passEnv h off kp al) ast True (passStart s kp) = Inr st1
          \<and> reaches (passEnv h off kp al) ast None st1 n parent st
          \<and> throwsAt (passEnv h off kp al) n parent st err)"
proof (cases "walkScope (passEnv h off kp al) ast True (passStart s kp)")
  case (Inl e)
  then show ?thesis by (simp add: pass_unfold)
next
  case (Inr st1)
  have "transformDestructuredProps h ast s off kp al = Inl err \<longleftrightarrow>
      visit (passEnv h off kp al) ast None st1 = Inl err"
    using Inr by (simp add: pass_unfold split: sum.splits)
  then show ?thesis
    using Inr by (simp add: visit_throws_iff_reaches)
qed


lemma keepsScopes_Inr: "keepsScopes k (Inr st) = (length (scopeStack st) = k)"
  by (simp add: keepsScopes_def)

lemma keepsScopes_throw: "keepsScopes k (throw e st)"
  by (simp add: keepsScopes_def throw_def)

lemma keepsScopes_bind:
  assumes "keepsScopes k r"
    and "\<And>st1. length (scopeStack st1) = k \<Longrightarrow> keepsScopes k (f st1)"
  shows "keepsScopes k (case r of Inl e \<Rightarrow> Inl e | Inr st1 \<Rightarrow> f st1)"
proof (cases r)
  case (Inl e)
  then show ?thesis by (simp add: keepsScopes_def)
next
  case (Inr st1)
  then have "length (scopeStack st1) = k" using assms(1) by (simp add: keepsScopes_def)
  from assms(2) [OF this] show ?thesis using Inr by simp
qed

lemma scopes_registerLocalBinding:
  "keepsScopes (length (scopeStack st)) (registerLocalBinding d st)"
  by (cases "scopeStack st")
     (simp_all add: registerLocalBinding_def keepsScopes_Inr keepsScopes_throw Let_def)

lemma scopes_registerAll: "keepsScopes (length (scopeStack st)) (registerAll ds st)"
proof (induction ds arbitrary: st)
  case Nil
  show ?case by (simp add: keepsScopes_Inr)
next
  case (Cons d ds)
  show ?case
    unfolding registerAll.simps
    by (rule keepsScopes_bind [OF scopes_registerLocalBinding]) (metis Cons.IH)
qed

lemma scopes_walkDeclarators:
  "keepsScopes (length (scopeStack st)) (walkDeclarators env isRoot decls st)"
proof (induction decls arbitrary: st)
  case Nil
  show ?case by (simp add: keepsScopes_Inr)
next
  case (Cons decl decls)
  have step: "keepsScopes (length (scopeStack st))
      (if b then Inr (excludeAll (extractIdentifiers (hs env) pat) st)
       else registerAll (extractIdentifiers (hs env) pat) st)" for b pat
    by (simp add: keepsScopes_Inr excludeAll_def scopes_registerAll)
  show ?case
  proof (cases "get_kid decl ''id''")
    case None
    then show ?thesis by (simp add: keepsScopes_throw)
  next
    case (Some pat)
    define b where "b = (isRoot \<and>
        (case get_kid decl ''init'' of
           None \<Rightarrow> False
         | Some init \<Rightarrow> isCallOf (hs env) (unwrapTSNode (hs env) init) ''defineProps''))"
    have eq: "walkDeclarators env isRoot (decl # decls) st =
        (case (if b then Inr (excludeAll (extractIdentifiers (hs env) pat) st)
               else registerAll (extractIdentifiers (hs env) pat) st) of
           Inl e \<Rightarrow> Inl e
         | Inr st1 \<Rightarrow> walkDeclarators env isRoot decls st1)"
      using Some by (simp add: b_def Let_def)
    show ?thesis
      unfolding eq by (rule keepsScopes_bind [OF step]) (metis Cons.IH)
  qed
qed

lemma scopes_walkStatement:
  "keepsScopes (length (scopeStack st)) (walkStatement env isRoot stmt st)"
  by (simp add: walkStatement_def walkVariableDeclaration_def keepsScopes_Inr keepsScopes_throw
      scopes_walkDeclarators scopes_registerLocalBinding split: option.splits)

lemma scopes_walkStatements:
  "keepsScopes (length (scopeStack st)) (walkStatements env isRoot stmts st)"
proof (induction stmts arbitrary: st)
  case Nil
  show ?case by (simp add: keepsScopes_Inr)
next
  case (Cons stmt stmts)
  show ?case
    unfolding walkStatements.simps
    by (rule keepsScopes_bind [OF scopes_walkStatement]) (metis Cons.IH)
qed

lemma scopes_walkScope: "keepsScopes (length (scopeStack st)) (walkScope env n isRoot st)"
  by (simp add: walkScope_def scopes_walkStatements)

lemma scopes_checkUsage: "keepsScopes (length (scopeStack st)) (checkUsage env n m a st)"
  by (simp add: checkUsage_def keepsScopes_Inr keepsScopes_throw Let_def split: option.splits)

lemma scopes_walkUpScopes:
  "keepsScopes (length (scopeStack st)) (walkUpScopes env scs n parent ps st)"
proof (induction scs arbitrary: st)
  case Nil
  show ?case by (simp add: keepsScopes_Inr)
next
  case (Cons sc scs)
  show ?case
  proof (cases "sc (nname n)")
    case None
    then show ?thesis using Cons.IH [of st] by (simp add: rewriteId_def)
  next
    case (Some b)
    then show ?thesis
      by (simp add: rewriteId_def keepsScopes_def throw_def split: option.splits)
  qed
qed

lemma len_pushScope: "length (scopeStack (pushScope st)) = Suc (length (scopeStack st))"
  by (simp add: pushScope_def)

lemma scopesCtl_Inr: "scopesCtl k (Inr (c, st)) = (c = Descend \<and> length (scopeStack st) = k)"
  by (simp add: scopesCtl_def)

lemma scopesCtl_throw: "scopesCtl k (throw e st)"
  by (simp add: scopesCtl_def throw_def)

lemma scopesCtl_descend: "keepsScopes k r \<Longrightarrow> scopesCtl k (descend r)"
  by (auto simp: keepsScopes_def scopesCtl_def descend_def split: sum.splits)

lemma scopesCtl_bind:
  assumes "keepsScopes k r"
    and "\<And>st1. length (scopeStack st1) = k \<Longrightarrow> scopesCtl k (f st1)"
  shows "scopesCtl k (case r of Inl e \<Rightarrow> Inl e | Inr st1 \<Rightarrow> f st1)"
proof (cases r)
  case (Inl e)
  then show ?thesis by (simp add: scopesCtl_def)
next
  case (Inr st1)
  then have "length (scopeStack st1) = k" using assms(1) by (simp add: keepsScopes_def)
  from assms(2) [OF this] show ?thesis using Inr by simp
qed

lemma scopes_enterNode:
  "scopesCtl (length (scopeStack st) + (if pushesScope env n parent then 1 else 0))
     (enterNode env n parent st)"
proof -
  let ?k = "Suc (length (scopeStack st))"
  have fn: "scopesCtl ?k
      (case registerAll (walkFunctionParams (hs env) n) (pushScope st) of
         Inl e \<Rightarrow> Inl e
       | Inr st3 \<Rightarrow>
           (case get_kid n ''body'' of
              None \<Rightarrow> throw RuntimeTypeError st3
            | Some body \<Rightarrow>
                if ntype body = ''BlockStatement''
                then descend (walkScope env body False st3)
                else Inr (Descend, st3)))"
  proof (rule scopesCtl_bind)
    show "keepsScopes ?k (registerAll (walkFunctionParams (hs env) n) (pushScope st))"
      using scopes_registerAll [of "pushScope st"] by (simp add: len_pushScope)
  next
    fix st1 :: state assume "length (scopeStack st1) = ?k"
    then show "scopesCtl ?k
      (case get_kid n ''body'' of
         None \<Rightarrow> throw RuntimeTypeError st1
       | Some body \<Rightarrow>
           if ntype body = ''BlockStatement''
           then descend (walkScope env body False st1)
           else Inr (Descend, st1))"
      using scopes_walkScope [of st1 env _ False]
      by (auto simp: scopesCtl_throw scopesCtl_Inr intro!: scopesCtl_descend
          split: option.splits)
  qed
  have ct: "scopesCtl ?k
      (case (case get_kid n ''param'' of
               None \<Rightarrow> Inr (pushScope st)
             | Some param \<Rightarrow>
                 if ntype param = ''Identifier''
                 then registerLocalBinding param (pushScope st)
                 else Inr (pushScope st)) of
         Inl e \<Rightarrow> Inl e
       | Inr st3 \<Rightarrow>
           (case get_kid n ''body'' of
              None \<Rightarrow> throw RuntimeTypeError st3
            | Some body \<Rightarrow> descend (walkScope env body False st3)))"
  proof (rule scopesCtl_bind)
    show "keepsScopes ?k
      (case get_kid n ''param'' of
         None \<Rightarrow> Inr (pushScope st)
       | Some param \<Rightarrow>
           if ntype param = ''Identifier''
           then registerLocalBinding param (pushScope st)
           else Inr (pushScope st))"
      using scopes_registerLocalBinding [of "pushScope st"]
      by (simp add: len_pushScope keepsScopes_Inr split: option.splits)
  next
    fix st1 :: state assume "length (scopeStack st1) = ?k"
    then show "scopesCtl ?k
      (case get_kid n ''body'' of
         None \<Rightarrow> throw RuntimeTypeError st1
       | Some body \<Rightarrow> descend (walkScope env body False st1))"
      using scopes_walkScope [of st1 env _ False]
      by (auto simp: scopesCtl_throw intro!: scopesCtl_descend split: option.splits)
  qed
  have bl: "scopesCtl ?k (descend (walkScope env n False (pushScope st)))"
    using scopes_walkScope [of "pushScope st" env n False]
    by (auto simp: len_pushScope intro!: scopesCtl_descend)
  have idn: "scopesCtl (length (scopeStack st))
      (if isReferencedIdentifier (hs env) n parent (parentStack st) \<and> nid n \<notin> excludedIds st
       then descend (walkUpScopes env (rev (scopeStack st)) n parent (parentStack st) st)
       else Inr (Descend, st))"
    by (simp add: scopesCtl_Inr scopesCtl_descend scopes_walkUpScopes)
  show ?thesis
    unfolding enterNode_def using fn ct bl idn
    by (auto simp: pushesScope_def scopesCtl_Inr scopesCtl_throw split: option.splits)
qed

lemma scopes_enter:
  assumes "enter env n parent st = Inr (c, st1)"
  shows "length (scopeStack st1) =
           length (scopeStack st) + (if c = Descend \<and> pushesScope env n parent then 1 else 0)"
proof (cases "case parent of None \<Rightarrow> False | Some p \<Rightarrow> isPureTypeParent p")
  case True
  then show ?thesis
    using assms by (auto simp: enter_def Let_def pushParent_def split: option.splits)
next
  case False
  obtain sa sb where
    a: "checkUsage env n ''watch'' (vueImportAliases env ''watch'') (pushParent parent st) = Inr sa"
    and b: "checkUsage env n ''toRef'' (vueImportAliases env ''toRef'') sa = Inr sb"
    and c: "enterNode env n parent sb = Inr (c, st1)"
    using assms False by (auto simp: enter_def Let_def split: sum.splits)
  have "length (scopeStack (pushParent parent st)) = length (scopeStack st)"
    by (simp add: pushParent_def split: option.splits)
  then have "length (scopeStack sa) = length (scopeStack st)"
    using scopes_checkUsage
      [of "pushParent parent st" env n "''watch''" "vueImportAliases env ''watch''"] a
    by (simp add: keepsScopes_def)
  moreover have "length (scopeStack sb) = length (scopeStack sa)"
    using scopes_checkUsage [of sa env n "''toRef''" "vueImportAliases env ''toRef''"] b
    by (simp add: keepsScopes_def)
  ultimately show ?thesis
    using scopes_enterNode [of sb env n parent] c by (simp add: scopesCtl_def)
qed

lemma scopes_leave:
  assumes "leave env n parent st = Inr st1"
  shows "length (scopeStack st1) =
           length (scopeStack st) - (if popsScope env n parent then 1 else 0)"
  using assms
  by (auto simp: leave_def Let_def popsScope_def popScope_def popParent_def throw_def
      split: if_splits option.splits)

lemma pops_pushes: "popsScope env n parent \<Longrightarrow> pushesScope env n parent"
  by (auto simp: popsScope_def pushesScope_def)

text \<open>
  A visit never leaves the scope stack shorter than it found it, and the visit of a
  catch clause leaves it longer: the scope pushed for the clause is not popped.
\<close>

lemma scopes_visit:
  "visit env n parent st = Inr st' \<Longrightarrow>
     length (scopeStack st) \<le> length (scopeStack st')
     \<and> (pushesScope env n parent \<and> \<not> popsScope env n parent
          \<and> \<not> (case parent of None \<Rightarrow> False | Some p \<Rightarrow> isPureTypeParent p)
        \<longrightarrow> length (scopeStack st) < length (scopeStack st'))"
  "visitKids env p kcs st = Inr st' \<Longrightarrow> length (scopeStack st) \<le> length (scopeStack st')"
proof (induction env n parent st and env p kcs st arbitrary: st' and st'
    rule: visit_visitKids.induct)
  case (1 env n parent st)
  obtain c st1 where e: "enter env n parent st = Inr (c, st1)"
    using "1.prems" by (auto simp: visit.simps [of env n] split: sum.splits)
  show ?case
  proof (cases c)
    case Skip
    have "case parent of None \<Rightarrow> False | Some p \<Rightarrow> isPureTypeParent p"
      using e Skip
      by (auto simp: enter_def Let_def enterNode_def descend_def throw_def
          split: if_splits sum.splits option.splits)
    moreover have "st' = st1"
      using "1.prems" e Skip by (simp add: visit.simps [of env n])
    ultimately show ?thesis
      using scopes_enter [OF e] Skip by simp
  next
    case Descend
    obtain st2 where k: "visitKids env n (nkids n) st1 = Inr st2"
      and l: "leave env n parent st2 = Inr st'"
      using "1.prems" e Descend by (auto simp: visit.simps [of env n] split: sum.splits)
    have "length (scopeStack st1) \<le> length (scopeStack st2)"
      using "1.IH" [OF e refl Descend k] .
    then show ?thesis
      using scopes_enter [OF e] scopes_leave [OF l] Descend pops_pushes [of env n parent]
      by auto
  qed
next
  case (2 env p st)
  then show ?case by simp
next
  case (3 env p kc kcs st)
  obtain st1 where v: "visit env (snd kc) (Some p) st = Inr st1"
    and r: "visitKids env p kcs st1 = Inr st'"
    using "3.prems" by (auto split: sum.splits)
  show ?case
    using "3.IH"(1) [OF v] "3.IH"(2) [OF v r] by simp
qed

text \<open>The visit of a catch clause leaves the scope stack longer than it found it.\<close>

lemma catch_clause_leaves_scope_on_stack:
  assumes "ntype n = ''CatchClause''"
    and "\<not> isFunctionType (hs env) n"
    and "\<not> isPureTypeParent p"
    and "visit env n (Some p) st = Inr st'"
  shows "length (scopeStack st) < length (scopeStack st')"
  using scopes_visit(1) [OF assms(4)] assms(1-3)
  by (simp add: pushesScope_def popsScope_def)

section \<open>Entering an identifier\<close>

lemma checkUsage_no_call:
  "\<not> isCallOf (hs env) n (aliasOr method alias) \<Longrightarrow> checkUsage env n method alias st = Inr st"
  by (simp add: checkUsage_def)

lemma enter_identifier:
  assumes "ntype n = ''Identifier''"
    and "\<not> isPureTypeParent p"
    and "\<not> isCallOf (hs env) n (aliasOr ''watch'' (vueImportAliases env ''watch''))"
    and "\<not> isCallOf (hs env) n (aliasOr ''toRef'' (vueImportAliases env ''toRef''))"
    and "\<not> isFunctionType (hs env) n"
  shows "enter env n (Some p) st =
    (if isReferencedIdentifier (hs env) n (Some p) (parentStack st @ [p]) \<and> nid n \<notin> excludedIds st
     then descend (walkUpScopes env (rev (scopeStack st)) n (Some p) (parentStack st @ [p])
            (st\<lparr>parentStack := parentStack st @ [p]\<rparr>))
     else Inr (Descend, st\<lparr>parentStack := parentStack st @ [p]\<rparr>))"
  using assms
  by (simp add: enter_def enterNode_def pushParent_def checkUsage_no_call Let_def)

lemma walkUpScopes_skip:
  "\<forall>sc\<in>set inner. sc (nname n) = None \<Longrightarrow>
   walkUpScopes env (inner @ rest) n parent ps st = walkUpScopes env rest n parent ps st"
  by (induction inner) (simp_all add: rewriteId_def)

lemma walkUpScopes_local:
  "\<forall>sc\<in>set inner. sc (nname n) \<noteq> Some True \<Longrightarrow> S (nname n) = Some False \<Longrightarrow>
   walkUpScopes env (inner @ S # rest) n parent ps st = Inr st"
  by (induction inner) (auto simp: rewriteId_def split: option.splits)

lemma walkUpScopes_prop:
  assumes "\<forall>sc\<in>set inner. sc (nname n) = None" and "S (nname n) = Some True"
  shows "walkUpScopes env (rev inner @ S # rest) n (Some p) ps st =
    (if isAssignTarget p n then throw (ReadonlyViolation n) st
     else if isStaticProperty (hs env) p \<and> has_flag p ''shorthand'' then
       (if has_flag p ''inPattern'' \<and> \<not> isInDestructureAssignment (hs env) p ps then Inr st
        else Inr (st\<lparr>edits := edits st @
               [AppendLeft (nend n + offset env) ('': '' @ accessExp env n)]\<rparr>))
     else Inr (st\<lparr>edits := edits st @
            [Overwrite (nstart n + offset env) (nend n + offset env) (accessExp env n)]\<rparr>))"
proof -
  have "walkUpScopes env (rev inner @ S # rest) n (Some p) ps st =
        walkUpScopes env (S # rest) n (Some p) ps st"
    using assms(1) walkUpScopes_skip [of "rev inner" n env "S # rest" "Some p" ps st]
    by simp
  then show ?thesis
    using assms(2) by (simp add: rewriteId_def throw_def)
qed

text \<open>
  What \<open>enter\<close> does to an identifier below a parent that is not a pure type node. A
  reference outside the exclusion set whose name the scope stack resolves, innermost scope
  first, to a prop binding, and that is neither the target of an assignment or update nor
  a shorthand marked \<^verbatim>\<open>inPattern\<close> outside a destructuring assignment, gets one edit: the
  access expression for the public name overwrites its span, or for a shorthand property
  is appended after it with a colon. An identifier that \<open>isReferencedIdentifier\<close> rejects
  or that is in the exclusion set gets none.
\<close>

lemma enter_prop_reference:
  assumes "ntype n = ''Identifier''"
    and "\<not> isPureTypeParent p"
    and "\<not> isCallOf (hs env) n (aliasOr ''watch'' (vueImportAliases env ''watch''))"
    and "\<not> isCallOf (hs env) n (aliasOr ''toRef'' (vueImportAliases env ''toRef''))"
    and "\<not> isFunctionType (hs env) n"
  shows
    "(isReferencedIdentifier (hs env) n (Some p) (parentStack st @ [p])
        \<and> nid n \<notin> excludedIds st
        \<and> scopeStack st = outer @ [S] @ inner \<and> S (nname n) = Some True
        \<and> (\<forall>sc\<in>set inner. sc (nname n) = None)
        \<and> \<not> isAssignTarget p n
        \<and> \<not> (isStaticProperty (hs env) p \<and> has_flag p ''shorthand'' \<and> has_flag p ''inPattern''
              \<and> \<not> isInDestructureAssignment (hs env) p (parentStack st @ [p]))
      \<longrightarrow> enter env n (Some p) st =
            Inr (Descend, st\<lparr>parentStack := parentStack st @ [p],
              edits := edits st @
                [if isStaticProperty (hs env) p \<and> has_flag p ''shorthand''
                 then AppendLeft (nend n + offset env)
                        ('': '' @ genPropsAccessExp (hs env) (propsLocalToPublicMap env (nname n)))
                 else Overwrite (nstart n + offset env) (nend n + offset env)
                        (genPropsAccessExp (hs env) (propsLocalToPublicMap env (nname n)))]\<rparr>))
     \<and> (\<not> isReferencedIdentifier (hs env) n (Some p) (parentStack st @ [p])
          \<or> nid n \<in> excludedIds st
      \<longrightarrow> enter env n (Some p) st =
            Inr (Descend, st\<lparr>parentStack := parentStack st @ [p]\<rparr>))"
  using assms
  by (auto simp: enter_identifier walkUpScopes_prop descend_def accessExp_def)

text \<open>
  The walk up the scope stack stops at the first scope that has the name: when a scope
  \<open>S\<close> holds it as local and no scope pushed after \<open>S\<close> holds it as a prop, entering a
  reference to the name changes nothing but the parent stack, whatever the scopes below
  \<open>S\<close> hold.
\<close>

lemma enter_shadowed_reference:
  assumes "ntype n = ''Identifier''"
    and "\<not> isPureTypeParent p"
    and "\<not> isCallOf (hs env) n (aliasOr ''watch'' (vueImportAliases env ''watch''))"
    and "\<not> isCallOf (hs env) n (aliasOr ''toRef'' (vueImportAliases env ''toRef''))"
    and "\<not> isFunctionType (hs env) n"
    and "scopeStack st = outer @ [S] @ inner"
    and "S (nname n) = Some False"
    and "\<forall>sc\<in>set inner. sc (nname n) \<noteq> Some True"
  shows "enter env n (Some p) st = Inr (Descend, st\<lparr>parentStack := parentStack st @ [p]\<rparr>)"
proof -
  have "walkUpScopes env (rev (scopeStack st)) n (Some p) (parentStack st @ [p])
          (st\<lparr>parentStack := parentStack st @ [p]\<rparr>) =
        Inr (st\<lparr>parentStack := parentStack st @ [p]\<rparr>)"
    using assms(6-8) walkUpScopes_local [of "rev inner" n S env "rev outer"]
    by simp
  then show ?thesis
    using assms(1-5) by (simp add: enter_identifier descend_def)
qed


text \<open>
  The closing callback \<^verbatim>\<open>leave\<close> has no case for a catch clause: it leaves the scope
  stack as it is.
\<close>

lemma leave_catch_keeps_scopes:
  "ntype n = ''CatchClause'' \<Longrightarrow> \<not> isFunctionType (hs env) n \<Longrightarrow>
   leave env n parent st = Inr (popParent parent st)"
  by (simp add: leave_def)

text \<open>
  The misuse check throws for every call of a tracking function whose first argument
  unwraps to an identifier, whatever the scopes hold for its name.
\<close>

lemma checkUsage_ignores_scopes:
  assumes "isCallOf (hs env) n (aliasOr method alias)"
    and "get_kid n ''arguments'' = Some a"
    and "ntype (unwrapTSNode (hs env) a) = ''Identifier''"
  shows "checkUsage env n method alias st =
     Inl (ReactivityTrackingMisuse (unwrapTSNode (hs env) a) method, edits st)"
  using assms by (simp add: checkUsage_def throw_def)

text \<open>
  For a catch clause whose parameter is not an identifier, \<open>enter\<close> registers nothing
  for the parameter: the new scope holds what the declarations of the body give.
\<close>

lemma catch_pattern_parameter_ignored:
  assumes "ntype n = ''CatchClause''"
    and "\<not> isFunctionType (hs env) n"
    and "get_kid n ''param'' = Some q"
    and "ntype q \<noteq> ''Identifier''"
    and "get_kid n ''body'' = Some b"
  shows "enterNode env n parent st = descend (walkScope env b False (pushScope st))"
  using assms by (simp add: enterNode_def)

text \<open>Unfolding of the concrete trees and of the modelled utilities.\<close>

lemmas tree_defs = ident_def mk_def get_kid_def get_kids_def has_flag_def same_node_def

lemmas helper_defs = helpers_spec_def isFunctionType_spec_def isCallOf_spec_def
  isInDestructureAssignment_spec_def isStaticProperty_spec_def isReferenced_spec_def
  isReferencedIdentifier_spec_def genPropsAccessExp_spec_def endsWith_def aliasOr_def
  walkFunctionParams_spec_def extractIdentifiers_spec.simps unwrapTSNode_spec.simps

lemmas pass_defs = transformDestructuredProps_def scopeSet_def walkScope_def walkStatement_def
  walkVariableDeclaration_def registerLocalBinding_def excludeAll_def visit.simps
  enter_def enterNode_def leave_def checkUsage_def pushParent_def popParent_def
  pushScope_def popScope_def descend_def throw_def rewriteId_def isAssignTarget_def
  accessExp_def isPureTypeParent_def

lemmas scenario_defs = envEx_def aliasesEx_def rootEx_def innerRefEx_def innerStmtEx_def
  fnBodyEx_def paramEx_def fnEx_def labelRefEx_def labelStmtEx_def scenarioEx_def
  stTopEx_def

lemmas fail_fast_defs = exFailFast_def updateStmtEx_def updateExprEx_def updateRefEx_def
  stRootEx_def envEx_def aliasesEx_def rootEx_def

text \<open>
  The scenario: the root scope and the name mapping that the props give, the state after
  the declarations of the top level have been collected, and the whole pass.
\<close>

lemma scenario_seed:
  "seedProps propsEx (Map.empty, Map.empty) = (rootEx, propsLocalToPublicMap envEx)"
  by (simp add: propsEx_def rootEx_def envEx_def scopeSet_def)

lemma scenario_pass_env: "passEnv helpers_spec 0 propsEx aliasesEx = envEx"
  by (simp add: passEnv_def scenario_seed envEx_def)

lemma scenario_pass_start: "passStart [] propsEx = stRootEx"
  by (simp add: passStart_def scenario_seed stRootEx_def)

lemma scenario_root_scope:
  "walkScope envEx scenarioEx True stRootEx =
     Inr \<lparr>scopeStack = [rootEx(''f'' \<mapsto> False)], excludedIds = {2}, parentStack = [],
       edits = []\<rparr>"
  by (simp add: pass_defs tree_defs scenario_defs stRootEx_def)

lemma scenario_edit_log:
  "transformDestructuredProps helpers_spec scenarioEx [] 0 propsEx aliasesEx =
     Inr [Overwrite 28 33 ''__props.count'', Overwrite 34 46 ''__props.label'']"
  by (simp add: pass_defs helper_defs tree_defs scenario_defs propsEx_def)

text \<open>
  On \<^verbatim>\<open>count satisfies T\<close> the reference to the prop \<^verbatim>\<open>count\<close> is a child of a
  \<^verbatim>\<open>TSSatisfiesExpression\<close>, which is none of the three hybrid kinds: the walk skips it
  and the pass ends without an edit.
\<close>

lemma reference_under_type_node_not_rewritten:
  "transformDestructuredProps helpers_spec exSatisfies [] 0 [(''count'', ''count'')] Map.empty
     = Inr []"
  by (simp add: pass_defs helper_defs tree_defs exSatisfies_def)

section \<open>The claims\<close>

text \<open>
  C1 (the code differs). A declaration site can receive an edit. The declarations in the
  head of a \<^verbatim>\<open>for\<close> statement are not collected, so their identifiers are not in the
  exclusion set, and the value of a property of a pattern passes for a reference. In
  \<^verbatim>\<open>for (let { a: count } = obj; ; ) {}\<close> the declared name \<^verbatim>\<open>count\<close> is overwritten by the
  access to the prop \<^verbatim>\<open>count\<close>.
\<close>

theorem declaration_in_for_head_is_rewritten:
  "transformDestructuredProps helpers_spec exForPattern [] 0 [(''count'', ''count'')] Map.empty
     = Inr [Overwrite 14 19 ''__props.count'']"
  by (simp add: pass_defs helper_defs tree_defs exForPattern_def)

text \<open>
  C2 (the code differs). The declarations in the head of a \<^verbatim>\<open>for\<close> statement are not
  collected. In \<^verbatim>\<open>for (let count = 0; count < 3; count++) {}\<close> the name \<^verbatim>\<open>count\<close> is
  local to the loop, yet the reference in the test is overwritten by the access to the
  prop \<^verbatim>\<open>count\<close> and the one in the update is reported as an assignment to a prop.
\<close>

theorem for_statement_binding_is_not_collected:
  "transformDestructuredProps helpers_spec exForLet [] 0 [(''count'', ''count'')] Map.empty =
     Inl (ReadonlyViolation (ident 10 ''count'' 31 36), [Overwrite 20 25 ''__props.count''])"
  by (simp add: pass_defs helper_defs tree_defs exForLet_def)




text \<open>
  C4 (the code differs). \<^verbatim>\<open>rewriteId\<close> leaves the shorthand of a pattern alone only
  when the property is marked \<^verbatim>\<open>inPattern\<close>, a mark that the parser does not give and
  this file never sets; the shorthand of a binding pattern is left alone when its
  identifier has been registered as a declaration. In \<^verbatim>\<open>try {} catch ({ count }) {}\<close> the
  pattern of the catch parameter is not registered, and the shorthand in binding position
  gets \<^verbatim>\<open>: __props.count\<close> appended.
\<close>

theorem catch_pattern_shorthand_is_rewritten:
  "transformDestructuredProps helpers_spec exCatchObjectPattern [] 0 [(''count'', ''count'')]
     Map.empty = Inr [AppendLeft 21 '': __props.count'']"
  by (simp add: pass_defs helper_defs tree_defs exCatchObjectPattern_def)

text \<open>
  C5 (the code differs). \<^verbatim>\<open>checkUsage\<close> never looks at the scopes: on \<^verbatim>\<open>let foo = 1\<close>,
  \<^verbatim>\<open>watch(foo)\<close> the pass throws \<open>ReactivityTrackingMisuse\<close> for \<^verbatim>\<open>foo\<close>, a local
  binding, although the component has the single prop \<^verbatim>\<open>count\<close>.
\<close>

theorem tracking_call_with_local_identifier_raises:
  "transformDestructuredProps helpers_spec exWatchLocal [] 0 [(''count'', ''count'')] Map.empty
     = Inl (ReactivityTrackingMisuse (ident 8 ''foo'' 18 21) ''watch'', [])"
  by (simp add: pass_defs helper_defs tree_defs exWatchLocal_def)

text \<open>
  C6 (the code differs). The scope pushed for the catch clause is still on the stack
  after the clause: in \<^verbatim>\<open>try {} catch (count) {}\<close>, \<^verbatim>\<open>count\<close> the last \<^verbatim>\<open>count\<close> is
  resolved against the frame of the clause and is not rewritten, while the same
  reference without the \<^verbatim>\<open>try\<close> statement before it is.
\<close>

theorem catch_scope_is_consulted_after_the_clause:
  "transformDestructuredProps helpers_spec exCatchLeak [] 0 [(''count'', ''count'')] Map.empty
     = Inr []
   \<and> transformDestructuredProps helpers_spec exNoCatch [] 0 [(''count'', ''count'')] Map.empty
     = Inr [Overwrite 24 29 ''__props.count'']"
  by (simp add: pass_defs helper_defs tree_defs exCatchLeak_def exNoCatch_def)

text \<open>
  C7 (the code differs). A catch parameter that is a pattern is not registered: in
  \<^verbatim>\<open>try {} catch ([count]) { count }\<close> the reference in the body of the clause is
  rewritten to the prop access.
\<close>

theorem catch_pattern_parameter_is_not_registered:
  "transformDestructuredProps helpers_spec exCatchPattern [] 0 [(''count'', ''count'')] Map.empty
     = Inr [Overwrite 25 30 ''__props.count'']"
  by (simp add: pass_defs helper_defs tree_defs exCatchPattern_def)

text \<open>
  C8 (amended). The pass is fail-fast, not atomic. The buffer only grows: in either
  outcome its content at the call is a prefix of its content at the end. The pass ends in
  an error exactly when the collection of the top-level declarations throws it, or the
  walk reaches a node at which \<^verbatim>\<open>enter\<close> or \<^verbatim>\<open>leave\<close> throws it: the outcome is then that
  error with the buffer as it was at the throw, so nothing is visited or recorded after
  the first violation. The collection of the declarations and a throwing \<^verbatim>\<open>enter\<close>
  record nothing: the buffer is as the pass, or the walk on its arrival at the node,
  found it, with the edits made before the violation. A throw in the visit of a node that
  a walk reaches is the outcome of that walk.
\<close>

theorem pass_stops_at_first_violation:
  "(case transformDestructuredProps h ast s off kp al of
      Inl (e, s') \<Rightarrow> prefix s s'
    | Inr s' \<Rightarrow> prefix s s')
   \<and> (transformDestructuredProps h ast s off kp al = Inl err \<longleftrightarrow>
        walkScope (passEnv h off kp al) ast True (passStart s kp) = Inl err
        \<or> (\<exists>st1 n parent st.
             walkScope (passEnv h off kp al) ast True (passStart s kp) = Inr st1
             \<and> reaches (passEnv h off kp al) ast None st1 n parent st
             \<and> throwsAt (passEnv h off kp al) n parent st err))
   \<and> (walkScope (passEnv h off kp al) ast True (passStart s kp) = Inl err \<longrightarrow> snd err = s)
   \<and> (enter env n parent st = Inl err \<longrightarrow> snd err = edits st)
   \<and> (reaches env r rp st0 n parent st \<and> visit env n parent st = Inl err
        \<longrightarrow> visit env r rp st0 = Inl err)"
proof -
  have "walkScope (passEnv h off kp al) ast True (passStart s kp) = Inl err \<longrightarrow> snd err = s"
    using walkScope_throw_edits [of "passEnv h off kp al" ast True "passStart s kp" err]
    by (simp add: passStart_def)
  then show ?thesis
    using grows_pass [where h = h and ast = ast and s = s]
      pass_throws_iff [where h = h and ast = ast and s = s]
      reaches_throw [of env r rp st0 n parent st err]
    by (simp add: enter_throw_edits)
qed

text \<open>
  On \<^verbatim>\<open>count\<close>, \<^verbatim>\<open>count++\<close>, \<^verbatim>\<open>aliasedLabel\<close> with the props of the scenario the walk
  reaches the \<^verbatim>\<open>count\<close> of the update with the overwrite of the first \<^verbatim>\<open>count\<close> in the
  buffer, and \<^verbatim>\<open>enter\<close> throws there: the pass ends in that error with that buffer, and the
  third statement is not visited.
\<close>

theorem pass_stops_at_first_violation_witness:
  "transformDestructuredProps helpers_spec exFailFast [] 0 propsEx aliasesEx =
     Inl (ReadonlyViolation updateRefEx, [Overwrite 0 5 ''__props.count''])"
proof -
  define st2 where "st2 = stRootEx\<lparr>edits := [Overwrite 0 5 ''__props.count'']\<rparr>"
  have ws: "walkScope envEx exFailFast True stRootEx = Inr stRootEx"
    by (simp add: pass_defs tree_defs fail_fast_defs)
  have e0: "enter envEx exFailFast None stRootEx = Inr (Descend, stRootEx)"
    by (simp add: pass_defs helper_defs tree_defs fail_fast_defs)
  have k0: "nkids exFailFast =
      [(''body'', mk ''ExpressionStatement'' 1 [(''expression'', ident 2 ''count'' 0 5)])]
      @ (''body'', updateStmtEx)
      # [(''body'', mk ''ExpressionStatement'' 6
           [(''expression'', ident 7 ''aliasedLabel'' 14 26)])]"
    by (simp add: exFailFast_def mk_def)
  have v0: "visitKids envEx exFailFast
      [(''body'', mk ''ExpressionStatement'' 1 [(''expression'', ident 2 ''count'' 0 5)])]
      stRootEx = Inr st2"
    by (simp add: st2_def pass_defs helper_defs tree_defs fail_fast_defs)
  have e1: "enter envEx updateStmtEx (Some exFailFast) st2 =
      Inr (Descend, st2\<lparr>parentStack := [exFailFast]\<rparr>)"
    by (simp add: st2_def pass_defs helper_defs tree_defs fail_fast_defs)
  have k1: "nkids updateStmtEx = [] @ (''expression'', updateExprEx) # []"
    by (simp add: updateStmtEx_def mk_def)
  have e2: "enter envEx updateExprEx (Some updateStmtEx) (st2\<lparr>parentStack := [exFailFast]\<rparr>) =
      Inr (Descend, st2\<lparr>parentStack := [exFailFast, updateStmtEx]\<rparr>)"
    by (simp add: st2_def pass_defs helper_defs tree_defs fail_fast_defs)
  have k2: "nkids updateExprEx = [] @ (''argument'', updateRefEx) # []"
    by (simp add: updateExprEx_def mk_def)
  have r: "reaches envEx exFailFast None stRootEx updateRefEx (Some updateExprEx)
      (st2\<lparr>parentStack := [exFailFast, updateStmtEx]\<rparr>)"
    using reaches.below [OF e0 k0 v0]
      reaches.below [OF e1 k1, of "st2\<lparr>parentStack := [exFailFast]\<rparr>"]
      reaches.below [OF e2 k2, of "st2\<lparr>parentStack := [exFailFast, updateStmtEx]\<rparr>"]
      reaches.here [of envEx updateRefEx "Some updateExprEx"
        "st2\<lparr>parentStack := [exFailFast, updateStmtEx]\<rparr>"]
    by simp
  have t: "throwsAt envEx updateRefEx (Some updateExprEx)
      (st2\<lparr>parentStack := [exFailFast, updateStmtEx]\<rparr>)
      (ReadonlyViolation updateRefEx, [Overwrite 0 5 ''__props.count''])"
    by (simp add: throwsAt_def st2_def pass_defs helper_defs tree_defs fail_fast_defs)
  show ?thesis
    using pass_stops_at_first_violation
      [where h = helpers_spec and ast = exFailFast and s = "[]" and off = 0 and kp = propsEx
        and al = aliasesEx
        and err = "(ReadonlyViolation updateRefEx, [Overwrite 0 5 ''__props.count''])"]
      ws r t
    by (auto simp: scenario_pass_env scenario_pass_start)
qed

text \<open>
  The claim as stated fails on \<^verbatim>\<open>count\<close>, \<^verbatim>\<open>count++\<close>: when the violation is thrown the
  caller's buffer holds the overwrite of the first \<^verbatim>\<open>count\<close>.
\<close>

theorem edits_before_violation_remain:
  "transformDestructuredProps helpers_spec exAtomic [] 0 [(''count'', ''count'')] Map.empty
     = Inl (ReadonlyViolation updateRefEx, [Overwrite 0 5 ''__props.count''])"
  by (simp add: pass_defs helper_defs tree_defs exAtomic_def updateRefEx_def)

text \<open>
  C9. The visit of a node whose parent's type starts with \<^verbatim>\<open>TS\<close> and is none of
  \<^verbatim>\<open>TSAsExpression\<close>, \<^verbatim>\<open>TSNonNullExpression\<close>, \<^verbatim>\<open>TSTypeAssertion\<close> returns at once,
  whatever is below the node: the scopes, the exclusion set and the edits are as before
  and nothing is thrown; only the parent has been pushed on the parent stack.
\<close>

theorem type_position_subtree_is_skipped:
  assumes "take 2 (ntype p) = ''TS''"
    and "ntype p \<noteq> ''TSAsExpression''"
    and "ntype p \<noteq> ''TSNonNullExpression''"
    and "ntype p \<noteq> ''TSTypeAssertion''"
  shows "visit env n (Some p) st = Inr (st\<lparr>parentStack := parentStack st @ [p]\<rparr>)"
  using assms
  by (simp add: visit.simps [of env n] enter_def isPureTypeParent_def pushParent_def)

text \<open>The type reference \<^verbatim>\<open>T\<close> below \<^verbatim>\<open>count satisfies T\<close>.\<close>

theorem type_position_subtree_is_skipped_witness:
  "visit envEx (mk ''TSTypeReference'' 4 [(''typeName'', ident 5 ''count'' 16 21)])
     (Some (mk ''TSSatisfiesExpression'' 2 [])) stTopEx =
   Inr (stTopEx\<lparr>parentStack := [scenarioEx, mk ''TSSatisfiesExpression'' 2 []]\<rparr>)"
  using type_position_subtree_is_skipped
      [where p = "mk ''TSSatisfiesExpression'' 2 []" and env = envEx and st = stTopEx
        and n = "mk ''TSTypeReference'' 4 [(''typeName'', ident 5 ''count'' 16 21)]"]
  by (simp add: mk_def stTopEx_def)



end
